theory Spec2Isabelle
  imports Complex_Main "HOL-Library.Sublist" "HOL-Library.Multiset"
begin

section \<open>Shared data model\<close>

text \<open>
  The indexing-and-retrieval engine of repo-knowledge, embedded function by function.
  JavaScript strings are modelled as \<^typ>\<open>string\<close> (lists of 8-bit characters, so
  \<open>length\<close> is the number of code units of a Latin-1 text), line numbers and token counts
  as \<^typ>\<open>int\<close>, and scores as \<^typ>\<open>real\<close> (the exact arithmetic that the source's
  doubles approximate).
\<close>

datatype MatchType = MatchVector | MatchKeyword | MatchSymbol | MatchGraph

text \<open>\<^verbatim>\<open>interface SearchResult\<close> of \<^verbatim>\<open>search/hybrid.ts\<close>.\<close>

record SearchResult =
  filePath :: string
  startLine :: int
  endLine :: int
  content :: string
  score :: real
  matchType :: MatchType
  symbols :: "string list"
  language :: string

section \<open>Token estimate (\<^verbatim>\<open>utils/token-counter.ts\<close>)\<close>

text \<open>\<^verbatim>\<open>Math.ceil(text.length / 3.5)\<close>.\<close>

definition estimateTokens :: "string \<Rightarrow> int" where
  "estimateTokens text = \<lceil>real (length text) / 3.5\<rceil>"

lemma estimateTokens_div [code]:
  "estimateTokens text = (2 * int (length text) + 6) div 7"
proof -
  have "real (length text) / 3.5 = real_of_int (2 * int (length text)) / real_of_int 7"
    by simp
  then have "estimateTokens text = - (- (2 * int (length text)) div 7)"
    unfolding estimateTokens_def by (simp only: ceiling_divide_eq_div)
  also have "\<dots> = (2 * int (length text) + 6) div 7"
    by presburger
  finally show ?thesis .
qed

lemma estimateTokens_nonneg: "0 \<le> estimateTokens text"
  by (simp add: estimateTokens_div)

text \<open>
  A JavaScript \<^verbatim>\<open>Map\<close> that is iterated is an association list in insertion order, whose
  keys are distinct; \<^verbatim>\<open>get\<close> is \<^const>\<open>map_of\<close>. A map that is only written and
  read by key is a function \<open>'k \<rightharpoonup> 'v\<close>.
\<close>

type_synonym ('k, 'v) JsMap = "('k \<times> 'v) list"

text \<open>
  How a template literal renders an integer line number: decimal digits, with a minus
  sign for a negative number.
\<close>

definition digitChar :: "nat \<Rightarrow> char" where
  "digitChar d = ''0123456789'' ! d"

fun showNat :: "nat \<Rightarrow> string" where
  "showNat n = (if n < 10 then [digitChar n] else showNat (n div 10) @ [digitChar (n mod 10)])"

declare showNat.simps [simp del]

definition showInt :: "int \<Rightarrow> string" where
  "showInt i = (if i < 0 then ''-'' @ showNat (nat (- i)) else showNat (nat i))"

text \<open>
  White space as \<^verbatim>\<open>String.prototype.trim\<close> and the regular expression class \<^verbatim>\<open>\s\<close>
  see it, for the characters an 8-bit string can hold: tab, line feed, vertical tab,
  form feed, carriage return, space and no-break space.
\<close>

definition isJsSpace :: "char \<Rightarrow> bool" where
  "isJsSpace c \<longleftrightarrow> of_char c \<in> {9, 10, 11, 12, 13, 32, 160 :: nat}"

text \<open>\<^verbatim>\<open>Array.prototype.join\<close> on strings.\<close>

fun joinWith :: "string \<Rightarrow> string list \<Rightarrow> string" where
  "joinWith sep [] = []"
| "joinWith sep [x] = x"
| "joinWith sep (x # y # ys) = x @ sep @ joinWith sep (y # ys)"

section \<open>Token budget (\<^verbatim>\<open>applyTokenBudget\<close> in \<^verbatim>\<open>search/hybrid.ts\<close>)\<close>

definition truncatedMarker :: string where
  "truncatedMarker = ''\<newline>// ... (truncated)''"

text \<open>
  The \<^verbatim>\<open>for\<close> loop of \<^verbatim>\<open>applyTokenBudget\<close>: the remaining results, the budget,
  and the two loop variables \<^verbatim>\<open>budgeted\<close> and \<^verbatim>\<open>tokensUsed\<close>. \<^verbatim>\<open>break\<close> returns
  \<^verbatim>\<open>budgeted\<close>. \<^verbatim>\<open>r.content.slice(0, remaining * 3)\<close> is only reached with
  \<open>remaining > 100\<close>, where it is \<^const>\<open>take\<close>.
\<close>

fun applyTokenBudget_loop ::
  "SearchResult list \<Rightarrow> int \<Rightarrow> SearchResult list \<Rightarrow> int \<Rightarrow> SearchResult list" where
  "applyTokenBudget_loop [] budget budgeted tokensUsed = budgeted"
| "applyTokenBudget_loop (r # rs) budget budgeted tokensUsed =
     (let tokens = estimateTokens (content r) + 20 in
      if tokensUsed + tokens > budget then
        (let remaining = budget - tokensUsed in
         if remaining > 100 then
           (let truncated = take (nat (remaining * 3)) (content r) in
            budgeted @ [r\<lparr>content := truncated @ truncatedMarker\<rparr>])
         else budgeted)
      else applyTokenBudget_loop rs budget (budgeted @ [r]) (tokensUsed + tokens))"

definition applyTokenBudget :: "SearchResult list \<Rightarrow> int \<Rightarrow> SearchResult list" where
  "applyTokenBudget results budget = applyTokenBudget_loop results budget [] 0"

text \<open>The cost the loop charges for a list of results kept in full.\<close>

definition resultsCost :: "SearchResult list \<Rightarrow> int" where
  "resultsCost rs = (\<Sum>r\<leftarrow>rs. estimateTokens (content r) + 20)"

section \<open>Deduplication (\<^verbatim>\<open>deduplicateResults\<close> in \<^verbatim>\<open>search/reranker.ts\<close>)\<close>

record SeenRange =
  seenFilePath :: string
  seenStartLine :: int
  seenEndLine :: int

text \<open>
  \<^verbatim>\<open>results.filter\<close> with the mutable array \<^verbatim>\<open>seen\<close> threaded through the calls of
  the predicate; \<^verbatim>\<open>seen.some\<close> is \<^const>\<open>list_ex\<close>.
\<close>

fun deduplicateResults_filter :: "SearchResult list \<Rightarrow> SeenRange list \<Rightarrow> SearchResult list" where
  "deduplicateResults_filter [] seen = []"
| "deduplicateResults_filter (r # rs) seen =
     (let overlaps = list_ex (\<lambda>s. seenFilePath s = filePath r \<and>
                                  startLine r \<le> seenEndLine s \<and>
                                  endLine r \<ge> seenStartLine s) seen in
      if \<not> overlaps then
        r # deduplicateResults_filter rs
              (seen @ [\<lparr>seenFilePath = filePath r, seenStartLine = startLine r,
                         seenEndLine = endLine r\<rparr>])
      else deduplicateResults_filter rs seen)"

definition deduplicateResults :: "SearchResult list \<Rightarrow> SearchResult list" where
  "deduplicateResults results = deduplicateResults_filter results []"

text \<open>Two results overlap when they are in the same file and their closed line intervals meet.\<close>

definition resultsOverlap :: "SearchResult \<Rightarrow> SearchResult \<Rightarrow> bool" where
  "resultsOverlap a b \<longleftrightarrow>
     filePath a = filePath b \<and> {startLine a..endLine a} \<inter> {startLine b..endLine b} \<noteq> {}"

section \<open>Incremental diff (\<^verbatim>\<open>computeDiff\<close> in \<^verbatim>\<open>indexer/hasher.ts\<close>)\<close>

text \<open>
  \<^verbatim>\<open>interface DiscoveredFile\<close>; its \<^verbatim>\<open>language\<close> field is named \<open>fileLanguage\<close> here,
  since record fields share one name space.
\<close>

record DiscoveredFile =
  absolutePath :: string
  relativePath :: string
  fileLanguage :: "string option"
  sizeBytes :: int

record FileDiff =
  added :: "DiscoveredFile list"
  modified :: "DiscoveredFile list"
  removed :: "string list"
  unchanged :: "string list"

record CacheEntry =
  cachedContent :: string
  cachedHash :: string

text \<open>\<^verbatim>\<open>fs.readFileSync\<close> throws when the file cannot be read.\<close>

datatype IoError = ReadFailed string

text \<open>The variables of the loop over \<^verbatim>\<open>discovered\<close>.\<close>

record DiffState =
  stAdded :: "DiscoveredFile list"
  stModified :: "DiscoveredFile list"
  stUnchanged :: "string list"
  seenPaths :: "string set"
  contentCache :: "string \<rightharpoonup> CacheEntry"

text \<open>
  The fast check \<^verbatim>\<open>existingSizes && existingSize !== undefined && existingSize !== file.sizeBytes\<close>.
\<close>

definition sizeChanged :: "(string, int) JsMap option \<Rightarrow> DiscoveredFile \<Rightarrow> bool" where
  "sizeChanged existingSizes file =
     (case existingSizes of
        None \<Rightarrow> False
      | Some sizes \<Rightarrow>
          (case map_of sizes (relativePath file) of
             None \<Rightarrow> False
           | Some existingSize \<Rightarrow> existingSize \<noteq> sizeBytes file))"

text \<open>
  The loop body, with the hash function and the file system as parameters.
  \<^verbatim>\<open>!existingHash\<close> holds for a missing entry and for the empty string.
\<close>

fun computeDiff_loop ::
  "(string \<Rightarrow> string) \<Rightarrow> (string \<Rightarrow> string option) \<Rightarrow> DiscoveredFile list \<Rightarrow>
   (string, string) JsMap \<Rightarrow> (string, int) JsMap option \<Rightarrow> DiffState \<Rightarrow> IoError + DiffState" where
  "computeDiff_loop hashContent readFile [] existingHashes existingSizes st = Inr st"
| "computeDiff_loop hashContent readFile (file # rest) existingHashes existingSizes st =
     (let st1 = st\<lparr>seenPaths := insert (relativePath file) (seenPaths st)\<rparr> in
      case map_of existingHashes (relativePath file) of
        None \<Rightarrow>
          computeDiff_loop hashContent readFile rest existingHashes existingSizes
            (st1\<lparr>stAdded := stAdded st1 @ [file]\<rparr>)
      | Some existingHash \<Rightarrow>
          if existingHash = [] then
            computeDiff_loop hashContent readFile rest existingHashes existingSizes
              (st1\<lparr>stAdded := stAdded st1 @ [file]\<rparr>)
          else if sizeChanged existingSizes file then
            computeDiff_loop hashContent readFile rest existingHashes existingSizes
              (st1\<lparr>stModified := stModified st1 @ [file]\<rparr>)
          else
            (case readFile (absolutePath file) of
               None \<Rightarrow> Inl (ReadFailed (absolutePath file))
             | Some fileContent \<Rightarrow>
                 (let currentHash = hashContent fileContent;
                      st2 = st1\<lparr>contentCache := (contentCache st1)(relativePath file \<mapsto>
                               \<lparr>cachedContent = fileContent, cachedHash = currentHash\<rparr>)\<rparr> in
                  if currentHash \<noteq> existingHash then
                    computeDiff_loop hashContent readFile rest existingHashes existingSizes
                      (st2\<lparr>stModified := stModified st2 @ [file]\<rparr>)
                  else
                    computeDiff_loop hashContent readFile rest existingHashes existingSizes
                      (st2\<lparr>stUnchanged := stUnchanged st2 @ [relativePath file]\<rparr>))))"

definition computeDiff ::
  "(string \<Rightarrow> string) \<Rightarrow> (string \<Rightarrow> string option) \<Rightarrow> DiscoveredFile list \<Rightarrow>
   (string, string) JsMap \<Rightarrow> (string \<rightharpoonup> CacheEntry) \<Rightarrow> (string, int) JsMap option \<Rightarrow>
   IoError + (FileDiff \<times> (string \<rightharpoonup> CacheEntry))" where
  "computeDiff hashContent readFile discovered existingHashes cache existingSizes =
     (case computeDiff_loop hashContent readFile discovered existingHashes existingSizes
             \<lparr>stAdded = [], stModified = [], stUnchanged = [], seenPaths = {},
              contentCache = cache\<rparr> of
        Inl e \<Rightarrow> Inl e
      | Inr st \<Rightarrow>
          Inr (\<lparr>added = stAdded st, modified = stModified st,
                removed = filter (\<lambda>existingPath. existingPath \<notin> seenPaths st)
                            (map fst existingHashes),
                unchanged = stUnchanged st\<rparr>,
               contentCache st))"

text \<open>The relative paths a loop state has classified.\<close>

definition classifiedPaths :: "DiffState \<Rightarrow> string list" where
  "classifiedPaths st =
     map relativePath (stAdded st) @ map relativePath (stModified st) @ stUnchanged st"

section \<open>Reciprocal rank fusion (\<^verbatim>\<open>reciprocalRankFusion\<close> in \<^verbatim>\<open>search/reranker.ts\<close>)\<close>

text \<open>\<^verbatim>\<open>interface RankedSource { results; weight }\<close>.\<close>

record RankedSource =
  sourceResults :: "SearchResult list"
  sourceWeight :: real

text \<open>A value of the map \<^verbatim>\<open>merged\<close>: \<^verbatim>\<open>{ result; score }\<close>.\<close>

record MergedEntry =
  mergedResult :: SearchResult
  mergedScore :: real

text \<open>The key \<^verbatim>\<open>`${r.filePath}:${r.startLine}-${r.endLine}`\<close>.\<close>

definition resultKey :: "SearchResult \<Rightarrow> string" where
  "resultKey r = filePath r @ '':'' @ showInt (startLine r) @ ''-'' @ showInt (endLine r)"

text \<open>
  The inner loop \<^verbatim>\<open>for (let rank = 0; rank < results.length; rank++)\<close> over one source
  of weight \<open>w\<close>: the results from position \<open>rank\<close> on, and the map \<^verbatim>\<open>merged\<close>. An
  existing entry is changed in place; a new key is appended.
\<close>

fun rrf_ranks ::
  "real \<Rightarrow> real \<Rightarrow> SearchResult list \<Rightarrow> nat \<Rightarrow> (string, MergedEntry) JsMap \<Rightarrow>
   (string, MergedEntry) JsMap" where
  "rrf_ranks k w [] rank merged = merged"
| "rrf_ranks k w (r # rs) rank merged =
     (let key = resultKey r;
          rrfScore = w / (k + real rank + 1) in
      case map_of merged key of
        Some existing \<Rightarrow>
          (let existing1 = existing\<lparr>mergedScore := mergedScore existing + rrfScore\<rparr>;
               existing2 =
                 (if length (content r) > length (content (mergedResult existing1))
                  then existing1\<lparr>mergedResult := r\<lparr>score := mergedScore existing1\<rparr>\<rparr>
                  else existing1) in
           rrf_ranks k w rs (rank + 1)
             (map (\<lambda>(key', entry). if key' = key then (key', existing2) else (key', entry)) merged))
      | None \<Rightarrow>
          rrf_ranks k w rs (rank + 1)
            (merged @ [(key, \<lparr>mergedResult = r, mergedScore = rrfScore\<rparr>)]))"

text \<open>The outer loop \<^verbatim>\<open>for (const { results, weight } of sources)\<close>.\<close>

fun rrf_sources ::
  "real \<Rightarrow> RankedSource list \<Rightarrow> (string, MergedEntry) JsMap \<Rightarrow> (string, MergedEntry) JsMap" where
  "rrf_sources k [] merged = merged"
| "rrf_sources k (src # srcs) merged =
     rrf_sources k srcs (rrf_ranks k (sourceWeight src) (sourceResults src) 0 merged)"

text \<open>
  The values in insertion order, sorted by descending score (\<^verbatim>\<open>Array.prototype.sort\<close> is
  stable, as \<^const>\<open>sort_key\<close> is), each result with the accumulated score.
\<close>

definition reciprocalRankFusion :: "RankedSource list \<Rightarrow> real \<Rightarrow> SearchResult list" where
  "reciprocalRankFusion sources k =
     map (\<lambda>entry. (mergedResult entry)\<lparr>score := mergedScore entry\<rparr>)
       (sort_key (\<lambda>entry. - mergedScore entry) (map snd (rrf_sources k sources [])))"

text \<open>The default \<^verbatim>\<open>k: number = 60\<close>.\<close>

definition reciprocalRankFusion_default :: "RankedSource list \<Rightarrow> SearchResult list" where
  "reciprocalRankFusion_default sources = reciprocalRankFusion sources 60"

text \<open>
  The contribution \<open>weight / (k + rank + 1)\<close> of every occurrence of a key in one source
  and in all sources.
\<close>

definition keyContribution :: "real \<Rightarrow> string \<Rightarrow> RankedSource \<Rightarrow> nat \<Rightarrow> real" where
  "keyContribution k key src rank =
     (if resultKey (sourceResults src ! rank) = key
      then sourceWeight src / (k + real rank + 1) else 0)"

definition fusedScoreOf :: "real \<Rightarrow> string \<Rightarrow> RankedSource list \<Rightarrow> real" where
  "fusedScoreOf k key sources =
     (\<Sum>s < length sources. \<Sum>rank < length (sourceResults (sources ! s)).
        keyContribution k key (sources ! s) rank)"

text \<open>
  The invariant of \<^verbatim>\<open>merged\<close>: keys are distinct and each entry is filed under the key
  of its result. \<open>mergedScoreOf\<close> reads the score accumulated for a key, 0 when absent.
\<close>

definition mergedWellFormed :: "(string, MergedEntry) JsMap \<Rightarrow> bool" where
  "mergedWellFormed merged \<longleftrightarrow>
     distinct (map fst merged) \<and>
     list_all (\<lambda>(key, entry). resultKey (mergedResult entry) = key) merged"

definition mergedScoreOf :: "(string, MergedEntry) JsMap \<Rightarrow> string \<Rightarrow> real" where
  "mergedScoreOf merged key =
     (case map_of merged key of None \<Rightarrow> 0 | Some entry \<Rightarrow> mergedScore entry)"

section \<open>The metadata store (\<^verbatim>\<open>storage/sqlite.ts\<close>)\<close>

text \<open>
  The rows of the tables the modelled functions read and write; a column keeps its SQL
  name behind a prefix for its table. \<^verbatim>\<open>NULL\<close> is \<^const>\<open>None\<close>.
\<close>

record FileRecord =
  fr_id :: int
  fr_path :: string
  fr_language :: "string option"
  fr_size_bytes :: int
  fr_content_hash :: string
  fr_line_count :: "int option"

record SymbolRecord =
  sr_id :: int
  sr_file_id :: int
  sr_name :: string
  sr_kind :: string
  sr_signature :: "string option"
  sr_start_line :: int
  sr_end_line :: int
  sr_parent_symbol_id :: "int option"
  sr_docstring :: "string option"
  sr_exported :: int
  sr_importance_score :: real

record ChunkRecord =
  cr_id :: int
  cr_file_id :: int
  cr_chunk_index :: int
  cr_content :: string
  cr_start_line :: int
  cr_end_line :: int
  cr_symbol_ids :: "string option"
  cr_token_count :: "int option"

text \<open>A row of \<^verbatim>\<open>searchChunks\<close>: \<^verbatim>\<open>ChunkRecord & { rank: number }\<close>.\<close>

record RankedChunk = ChunkRecord +
  cr_rank :: real

record GraphEdgeRecord =
  ge_source_symbol_id :: int
  ge_target_symbol_id :: int
  ge_edge_type :: string
  ge_weight :: real
  ge_source_file_id :: "int option"
  ge_target_file_id :: "int option"

record FileDependencyRecord =
  fd_source_file_id :: int
  fd_target_file_id :: int
  fd_dependency_type :: string

record SqliteStore =
  files :: "FileRecord list"
  symbolRows :: "SymbolRecord list"
  chunkRows :: "ChunkRecord list"
  graph_edges :: "GraphEdgeRecord list"
  file_dependencies :: "FileDependencyRecord list"
  index_state :: "string \<rightharpoonup> string"

definition getFileById :: "SqliteStore \<Rightarrow> int \<Rightarrow> FileRecord option" where
  "getFileById sqlite fid = find (\<lambda>f. fr_id f = fid) (files sqlite)"

definition getFileHashes :: "SqliteStore \<Rightarrow> (string, string) JsMap" where
  "getFileHashes sqlite = map (\<lambda>f. (fr_path f, fr_content_hash f)) (files sqlite)"

definition getFileSizes :: "SqliteStore \<Rightarrow> (string, int) JsMap" where
  "getFileSizes sqlite = map (\<lambda>f. (fr_path f, fr_size_bytes f)) (files sqlite)"

text \<open>
  \<^verbatim>\<open>DELETE FROM files WHERE path = ?\<close> for each path; symbols, chunks and file
  dependencies of a deleted file go with it, and edges with a deleted symbol
  (\<^verbatim>\<open>ON DELETE CASCADE\<close>).
\<close>

definition deleteFilesByPaths :: "SqliteStore \<Rightarrow> string list \<Rightarrow> SqliteStore" where
  "deleteFilesByPaths sqlite paths =
     (if paths = [] then sqlite
      else
        (let gone = map fr_id (filter (\<lambda>f. fr_path f \<in> set paths) (files sqlite));
             goneSymbols = map sr_id (filter (\<lambda>s. sr_file_id s \<in> set gone) (symbolRows sqlite)) in
         sqlite\<lparr>
           files := filter (\<lambda>f. fr_path f \<notin> set paths) (files sqlite),
           symbolRows := filter (\<lambda>s. sr_file_id s \<notin> set gone) (symbolRows sqlite),
           chunkRows := filter (\<lambda>c. cr_file_id c \<notin> set gone) (chunkRows sqlite),
           graph_edges := filter (\<lambda>e. ge_source_symbol_id e \<notin> set goneSymbols \<and>
                                         ge_target_symbol_id e \<notin> set goneSymbols)
                            (graph_edges sqlite),
           file_dependencies := filter (\<lambda>d. fd_source_file_id d \<notin> set gone \<and>
                                               fd_target_file_id d \<notin> set gone)
                                  (file_dependencies sqlite)\<rparr>))"

definition clearAllData :: "SqliteStore \<Rightarrow> SqliteStore" where
  "clearAllData sqlite =
     sqlite\<lparr>files := [], symbolRows := [], chunkRows := [], graph_edges := [],
            file_dependencies := [], index_state := Map.empty\<rparr>"

definition setState :: "SqliteStore \<Rightarrow> string \<Rightarrow> string \<Rightarrow> SqliteStore" where
  "setState sqlite key v = sqlite\<lparr>index_state := (index_state sqlite)(key \<mapsto> v)\<rparr>"

definition getState :: "SqliteStore \<Rightarrow> string \<Rightarrow> string option" where
  "getState sqlite key = index_state sqlite key"

text \<open>The counts of \<^verbatim>\<open>getStats\<close> that the pipeline uses.\<close>

definition statsTotalFiles :: "SqliteStore \<Rightarrow> nat" where
  "statsTotalFiles sqlite = length (files sqlite)"

definition statsTotalChunks :: "SqliteStore \<Rightarrow> nat" where
  "statsTotalChunks sqlite = length (chunkRows sqlite)"

definition getAllEdges :: "SqliteStore \<Rightarrow> GraphEdgeRecord list" where
  "getAllEdges sqlite = graph_edges sqlite"

text \<open>\<^verbatim>\<open>UPDATE symbols SET importance_score = ? WHERE id = ?\<close>, once per update, in order.\<close>

definition updateSymbolImportance :: "SqliteStore \<Rightarrow> int \<Rightarrow> real \<Rightarrow> SqliteStore" where
  "updateSymbolImportance sqlite symbolId newScore =
     sqlite\<lparr>symbolRows :=
       map (\<lambda>s. if sr_id s = symbolId then s\<lparr>sr_importance_score := newScore\<rparr> else s)
         (symbolRows sqlite)\<rparr>"

fun updateSymbolImportanceBatch :: "SqliteStore \<Rightarrow> (int \<times> real) list \<Rightarrow> SqliteStore" where
  "updateSymbolImportanceBatch sqlite [] = sqlite"
| "updateSymbolImportanceBatch sqlite ((symbolId, newScore) # updates) =
     updateSymbolImportanceBatch (updateSymbolImportance sqlite symbolId newScore) updates"

section \<open>Keyword and symbol search (\<^verbatim>\<open>search/keyword-search.ts\<close>)\<close>

text \<open>
  The full-text expression: every character of the class
  \<^verbatim>\<open>['"(){}[\]^~*?:\\!]\<close> (the first three of \<open>ftsSpecial\<close> are the two quotes and
  the backslash) becomes a space, the text is split at white space, pieces of length at
  most 1 are dropped and the rest is joined with \<^verbatim>\<open> OR \<close>.
\<close>

definition ftsSpecial :: "char \<Rightarrow> bool" where
  "ftsSpecial c \<longleftrightarrow> c \<in> set (CHR 0x27 # CHR 0x22 # CHR 0x5C # ''(){}[]^~*?:!'')"

text \<open>
  \<^verbatim>\<open>split(/\s+/)\<close>: the pieces between maximal runs of white space, with an empty
  piece before a leading and after a trailing run. \<open>current\<close> is the piece being read,
  \<open>afterSpace\<close> says that the previous character was white space.
\<close>

fun splitSpaces :: "string \<Rightarrow> string \<Rightarrow> bool \<Rightarrow> string list" where
  "splitSpaces [] current afterSpace = [current]"
| "splitSpaces (c # cs) current afterSpace =
     (if isJsSpace c then
        (if afterSpace then splitSpaces cs [] True else current # splitSpaces cs [] True)
      else splitSpaces cs (current @ [c]) False)"

definition buildFtsQuery :: "string \<Rightarrow> string" where
  "buildFtsQuery query =
     joinWith '' OR ''
       (filter (\<lambda>w. length w > 1)
          (splitSpaces (map (\<lambda>c. if ftsSpecial c then CHR '' '' else c) query) [] False))"

text \<open>
  \<^verbatim>\<open>keywordSearch\<close>. The full-text query of the store (\<^verbatim>\<open>sqlite.searchChunks\<close>) and
  \<^verbatim>\<open>JSON.parse\<close> are parameters; each gives \<^const>\<open>None\<close> when it throws, and the
  \<^verbatim>\<open>catch\<close> block then returns the empty list.
\<close>

definition keywordScore :: "real \<Rightarrow> real" where
  "keywordScore rank = (if \<bar>rank\<bar> > 0 then 1 / (1 + \<bar>rank\<bar>) else 0)"

definition keywordResult ::
  "(string \<Rightarrow> string list option) \<Rightarrow> SqliteStore \<Rightarrow> RankedChunk \<Rightarrow> SearchResult option" where
  "keywordResult jsonParse sqlite r =
     (let file = getFileById sqlite (cr_file_id r);
          names =
            (case cr_symbol_ids r of
               None \<Rightarrow> Some []
             | Some ids \<Rightarrow> if ids = [] then Some [] else
                  map_option (filter (\<lambda>n. n \<noteq> [])) (jsonParse ids)) in
      map_option
        (\<lambda>ns. \<lparr>filePath = (case file of None \<Rightarrow> ''unknown'' | Some f \<Rightarrow> fr_path f),
               startLine = cr_start_line r,
               endLine = cr_end_line r,
               content = cr_content r,
               score = keywordScore (cr_rank r),
               matchType = MatchKeyword,
               symbols = ns,
               language = (case file of None \<Rightarrow> ''unknown''
                           | Some f \<Rightarrow> (case fr_language f of None \<Rightarrow> ''unknown'' | Some l \<Rightarrow> l))\<rparr>)
        names)"

definition keywordSearch ::
  "(string \<Rightarrow> int \<Rightarrow> RankedChunk list option) \<Rightarrow> (string \<Rightarrow> string list option) \<Rightarrow>
   SqliteStore \<Rightarrow> string \<Rightarrow> int option \<Rightarrow> SearchResult list" where
  "keywordSearch searchChunks jsonParse sqlite query limit =
     (let ftsQuery = buildFtsQuery query in
      if ftsQuery = [] then []
      else
        (case searchChunks ftsQuery (case limit of None \<Rightarrow> 20 | Some l \<Rightarrow> l) of
           None \<Rightarrow> []
         | Some rows \<Rightarrow>
             (case those (map (keywordResult jsonParse sqlite) rows) of
                None \<Rightarrow> []
              | Some rs \<Rightarrow> rs)))"

text \<open>
  \<^verbatim>\<open>symbolSearch\<close>, with \<^verbatim>\<open>sqlite.searchSymbols\<close> as a parameter. The content is
  \<^verbatim>\<open>[s.signature ?? s.name, s.docstring ? `// ${s.docstring}` : ""].filter(Boolean).join("\n")\<close>.
\<close>

definition symbolResult :: "SqliteStore \<Rightarrow> SymbolRecord \<Rightarrow> SearchResult" where
  "symbolResult sqlite s =
     (let file = getFileById sqlite (sr_file_id s);
          parts =
            [case sr_signature s of None \<Rightarrow> sr_name s | Some sg \<Rightarrow> sg,
             case sr_docstring s of None \<Rightarrow> []
             | Some d \<Rightarrow> if d = [] then [] else ''// '' @ d] in
      \<lparr>filePath = (case file of None \<Rightarrow> ''unknown'' | Some f \<Rightarrow> fr_path f),
       startLine = sr_start_line s,
       endLine = sr_end_line s,
       content = joinWith ''\<newline>'' (filter (\<lambda>p. p \<noteq> []) parts),
       score = sr_importance_score s + 0.1,
       matchType = MatchSymbol,
       symbols = [sr_name s],
       language = (case file of None \<Rightarrow> ''unknown''
                   | Some f \<Rightarrow> (case fr_language f of None \<Rightarrow> ''unknown'' | Some l \<Rightarrow> l))\<rparr>)"

definition symbolSearch ::
  "(string \<Rightarrow> int \<Rightarrow> SymbolRecord list option) \<Rightarrow> SqliteStore \<Rightarrow> string \<Rightarrow> int option \<Rightarrow>
   SearchResult list" where
  "symbolSearch searchSymbols sqlite query limit =
     (let ftsQuery = buildFtsQuery query in
      if ftsQuery = [] then []
      else
        (case searchSymbols ftsQuery (case limit of None \<Rightarrow> 20 | Some l \<Rightarrow> l) of
           None \<Rightarrow> []
         | Some rows \<Rightarrow> map (symbolResult sqlite) rows))"

section \<open>PageRank (\<^verbatim>\<open>rankSymbols\<close> in \<^verbatim>\<open>indexer/ranker.ts\<close>)\<close>

text \<open>
  \<^verbatim>\<open>Set.add\<close> on a set kept in insertion order, and the set of the symbol ids of all
  edges.
\<close>

definition addId :: "int \<Rightarrow> int list \<Rightarrow> int list" where
  "addId x ids = (if x \<in> set ids then ids else ids @ [x])"

definition collectSymbolIds :: "GraphEdgeRecord list \<Rightarrow> int list" where
  "collectSymbolIds edges =
     fold (\<lambda>e ids. addId (ge_target_symbol_id e) (addId (ge_source_symbol_id e) ids)) edges []"

text \<open>
  The adjacency maps. \<^verbatim>\<open>outLinks.get(id) ?? []\<close> is \<open>getLinks\<close>; \<open>pushLink\<close> is
  \<^verbatim>\<open>const list = m.get(key); if (list) list.push(v)\<close>.
\<close>

definition getLinks :: "(int \<rightharpoonup> int list) \<Rightarrow> int \<Rightarrow> int list" where
  "getLinks m symbolId = (case m symbolId of None \<Rightarrow> [] | Some l \<Rightarrow> l)"

definition pushLink :: "(int \<rightharpoonup> int list) \<Rightarrow> int \<Rightarrow> int \<Rightarrow> (int \<rightharpoonup> int list)" where
  "pushLink m key v = (case m key of None \<Rightarrow> m | Some l \<Rightarrow> m(key \<mapsto> l @ [v]))"

definition emptyLinks :: "int list \<Rightarrow> (int \<rightharpoonup> int list)" where
  "emptyLinks ids = fold (\<lambda>symbolId m. m(symbolId \<mapsto> [])) ids Map.empty"

definition buildLinks ::
  "int list \<Rightarrow> GraphEdgeRecord list \<Rightarrow> (int \<rightharpoonup> int list) \<times> (int \<rightharpoonup> int list)" where
  "buildLinks ids edges =
     fold (\<lambda>e (outLinks, inLinks).
             (pushLink outLinks (ge_source_symbol_id e) (ge_target_symbol_id e),
              pushLink inLinks (ge_target_symbol_id e) (ge_source_symbol_id e)))
       edges (emptyLinks ids, emptyLinks ids)"

definition dampingFactor :: real where
  "dampingFactor = 0.85"

definition iterations :: nat where
  "iterations = 20"

text \<open>\<^verbatim>\<open>scores.get(id) ?? 0\<close>.\<close>

definition getScore :: "(int \<rightharpoonup> real) \<Rightarrow> int \<Rightarrow> real" where
  "getScore scores symbolId = (case scores symbolId of None \<Rightarrow> 0 | Some s \<Rightarrow> s)"

text \<open>The sum over the incoming neighbours of one node.\<close>

definition inScoreOf ::
  "(int \<rightharpoonup> int list) \<Rightarrow> (int \<rightharpoonup> real) \<Rightarrow> int list \<Rightarrow> real" where
  "inScoreOf outLinks scores incoming =
     fold (\<lambda>inId inScore.
             (let outDegree = length (getLinks outLinks inId) in
              if outDegree > 0 then inScore + getScore scores inId / real outDegree
              else inScore))
       incoming 0"

text \<open>One pass of the loop \<^verbatim>\<open>for (let iter = 0; iter < iterations; iter++)\<close>.\<close>

definition pagerankStep ::
  "int list \<Rightarrow> (int \<rightharpoonup> int list) \<Rightarrow> (int \<rightharpoonup> int list) \<Rightarrow> int list \<Rightarrow>
   (int \<rightharpoonup> real) \<Rightarrow> (int \<rightharpoonup> real)" where
  "pagerankStep ids outLinks inLinks danglingNodes scores =
     (let N = real (length ids);
          danglingMass = fold (\<lambda>symbolId mass. mass + getScore scores symbolId) danglingNodes 0;
          newScores =
            fold (\<lambda>symbolId m.
                    m(symbolId \<mapsto>
                      (1 - dampingFactor) / N +
                      dampingFactor *
                        (inScoreOf outLinks scores (getLinks inLinks symbolId) + danglingMass / N)))
              ids Map.empty in
      scores ++ newScores)"

text \<open>
  \<^verbatim>\<open>rankSymbols\<close>: nothing happens without edges; otherwise the scores start at \<open>1 / N\<close>,
  go through 20 passes, and are divided by their maximum before they are written.
\<close>

definition pagerankScores :: "GraphEdgeRecord list \<Rightarrow> (int \<rightharpoonup> real)" where
  "pagerankScores edges =
     (let ids = collectSymbolIds edges;
          N = real (length ids);
          (outLinks, inLinks) = buildLinks ids edges;
          scores0 = fold (\<lambda>symbolId m. m(symbolId \<mapsto> 1.0 / N)) ids Map.empty;
          danglingNodes = filter (\<lambda>symbolId. length (getLinks outLinks symbolId) = 0) ids in
      (pagerankStep ids outLinks inLinks danglingNodes ^^ iterations) scores0)"

definition rankSymbols :: "SqliteStore \<Rightarrow> SqliteStore" where
  "rankSymbols sqlite =
     (let edges = getAllEdges sqlite in
      if length edges = 0 then sqlite
      else
        (let ids = collectSymbolIds edges in
         if length ids = 0 then sqlite
         else
           (let scores = pagerankScores edges;
                maxScore = fold (\<lambda>symbolId m. if getScore scores symbolId > m
                                               then getScore scores symbolId else m) ids 0 in
            if maxScore > 0 then
              updateSymbolImportanceBatch sqlite
                (map (\<lambda>symbolId. (symbolId, getScore scores symbolId / maxScore)) ids)
            else sqlite)))"

section \<open>The indexing pipeline (\<^verbatim>\<open>runIndexingPipeline\<close> in \<^verbatim>\<open>indexer/pipeline.ts\<close>)\<close>

text \<open>
  The project: the metadata store, the vector store (each row by its file path) and the
  configured embedding model.
\<close>

record Project =
  projectSqlite :: SqliteStore
  projectLance :: "string list"
  projectEmbeddingModel :: string

record IndexOptions =
  optFull :: bool
  optGenerateSummaries :: bool
  optDryRun :: bool

record IndexResult =
  filesAdded :: nat
  filesModified :: nat
  filesRemoved :: nat
  filesUnchanged :: nat
  totalSymbols :: nat
  totalChunks :: nat
  totalEmbeddings :: nat

datatype PipelineError = DiffFailed IoError | PhaseFailed string

text \<open>
  Modelled from the spec: \<^verbatim>\<open>LanceStore.deleteByFilePath\<close> is called by the pipeline, and
  the vector store under \<^verbatim>\<open>src/\<close> does not define it; the spec has the pipeline
  ``delete the file's vectors from the vector store''.
\<close>

definition deleteByFilePath :: "string list \<Rightarrow> string \<Rightarrow> string list" where
  "deleteByFilePath rows path = filter (\<lambda>rowPath. rowPath \<noteq> path) rows"

definition getFileByPath :: "SqliteStore \<Rightarrow> string \<Rightarrow> FileRecord option" where
  "getFileByPath store path = find (\<lambda>f. fr_path f = path) (files store)"

text \<open>
  \<^verbatim>\<open>DELETE FROM symbols WHERE file_id = ?\<close> (edges of a deleted symbol go with it), and
  the deletions of chunks, edges and file dependencies by file.
\<close>

definition deleteSymbolsByFile :: "SqliteStore \<Rightarrow> int \<Rightarrow> SqliteStore" where
  "deleteSymbolsByFile store fileId =
     (let goneSymbols = map sr_id (filter (\<lambda>s. sr_file_id s = fileId) (symbolRows store)) in
      store\<lparr>symbolRows := filter (\<lambda>s. sr_file_id s \<noteq> fileId) (symbolRows store),
             graph_edges := filter (\<lambda>e. ge_source_symbol_id e \<notin> set goneSymbols \<and>
                                           ge_target_symbol_id e \<notin> set goneSymbols)
                              (graph_edges store)\<rparr>)"

definition deleteChunksByFile :: "SqliteStore \<Rightarrow> int \<Rightarrow> SqliteStore" where
  "deleteChunksByFile store fileId =
     store\<lparr>chunkRows := filter (\<lambda>c. cr_file_id c \<noteq> fileId) (chunkRows store)\<rparr>"

definition deleteEdgesByFile :: "SqliteStore \<Rightarrow> int \<Rightarrow> SqliteStore" where
  "deleteEdgesByFile store fileId =
     store\<lparr>graph_edges := filter (\<lambda>e. \<not> (ge_source_file_id e = Some fileId \<or>
                                             ge_target_file_id e = Some fileId))
                             (graph_edges store)\<rparr>"

definition deleteFileDependenciesByFile :: "SqliteStore \<Rightarrow> int \<Rightarrow> SqliteStore" where
  "deleteFileDependenciesByFile store fileId =
     store\<lparr>file_dependencies := filter (\<lambda>d. \<not> (fd_source_file_id d = fileId \<or>
                                                   fd_target_file_id d = fileId))
                                   (file_dependencies store)\<rparr>"

text \<open>The body of the loop over \<^verbatim>\<open>diff.modified\<close>; \<^verbatim>\<open>existing?.id\<close> is false for id 0.\<close>

definition cleanModifiedFile :: "DiscoveredFile \<Rightarrow> Project \<Rightarrow> Project" where
  "cleanModifiedFile file project =
     (let store =
            (case getFileByPath (projectSqlite project) (relativePath file) of
               None \<Rightarrow> projectSqlite project
             | Some existing \<Rightarrow>
                 if fr_id existing = 0 then projectSqlite project
                 else deleteFileDependenciesByFile
                        (deleteEdgesByFile
                           (deleteChunksByFile
                              (deleteSymbolsByFile (projectSqlite project) (fr_id existing))
                              (fr_id existing))
                           (fr_id existing))
                        (fr_id existing)) in
      project\<lparr>projectSqlite := store,
               projectLance := deleteByFilePath (projectLance project) (relativePath file)\<rparr>)"

text \<open>What phase 2 hands on to the rest of the pipeline.\<close>

record DiffPhase =
  dpProject :: Project
  filesToProcess :: "DiscoveredFile list"
  addedFiles :: "DiscoveredFile list"
  modifiedFiles :: "DiscoveredFile list"
  removedPaths :: "string list"
  unchangedCount :: nat
  dpCache :: "string \<rightharpoonup> CacheEntry"

definition diffPhase ::
  "(string \<Rightarrow> string) \<Rightarrow> (string \<Rightarrow> string option) \<Rightarrow> DiscoveredFile list \<Rightarrow> Project \<Rightarrow>
   IndexOptions \<Rightarrow> PipelineError + DiffPhase" where
  "diffPhase hashContent readFile discovered project options =
     (if optFull options then
        Inr \<lparr>dpProject = project\<lparr>projectSqlite := clearAllData (projectSqlite project)\<rparr>,
             filesToProcess = discovered, addedFiles = discovered, modifiedFiles = [],
             removedPaths = [], unchangedCount = 0, dpCache = Map.empty\<rparr>
      else
        (case computeDiff hashContent readFile discovered (getFileHashes (projectSqlite project))
                Map.empty (Some (getFileSizes (projectSqlite project))) of
           Inl e \<Rightarrow> Inl (DiffFailed e)
         | Inr (diff, cache) \<Rightarrow>
             (let project1 =
                    (if length (removed diff) > 0 \<or> length (modified diff) > 0 then
                       fold cleanModifiedFile (modified diff)
                         (project\<lparr>projectLance := fold (\<lambda>removedPath rows. deleteByFilePath rows removedPath)
                                                  (removed diff) (projectLance project)\<rparr>)
                     else project);
                  project2 =
                    (if length (removed diff) > 0 then
                       project1\<lparr>projectSqlite := deleteFilesByPaths (projectSqlite project1) (removed diff)\<rparr>
                     else project1) in
              Inr \<lparr>dpProject = project2,
                   filesToProcess = added diff @ modified diff,
                   addedFiles = added diff, modifiedFiles = modified diff,
                   removedPaths = removed diff, unchangedCount = length (unchanged diff),
                   dpCache = cache\<rparr>)))"

text \<open>
  The pipeline. File discovery has run: \<open>discovered\<close> is its result. Phases 3 to 9
  (parse, chunk, persist, embed, build the graph, rank, summarise) work through the
  parser, the embedding model and the vector store; they are the one parameter
  \<open>laterPhases\<close>, which gives the project afterwards and the numbers of symbols, chunks
  and embeddings. \<open>now\<close> is \<^verbatim>\<open>new Date().toISOString()\<close>.
\<close>

definition runIndexingPipeline ::
  "(string \<Rightarrow> string) \<Rightarrow> (string \<Rightarrow> string option) \<Rightarrow>
   (DiscoveredFile list \<Rightarrow> (string \<rightharpoonup> CacheEntry) \<Rightarrow> IndexOptions \<Rightarrow> Project \<Rightarrow>
      PipelineError + (Project \<times> nat \<times> nat \<times> nat)) \<Rightarrow>
   string \<Rightarrow> DiscoveredFile list \<Rightarrow> Project \<Rightarrow> IndexOptions \<Rightarrow>
   PipelineError + (Project \<times> IndexResult)" where
  "runIndexingPipeline hashContent readFile laterPhases now discovered project options =
     (if optDryRun options then
        Inr (project,
             \<lparr>filesAdded = length discovered, filesModified = 0, filesRemoved = 0,
              filesUnchanged = 0, totalSymbols = 0, totalChunks = 0, totalEmbeddings = 0\<rparr>)
      else
        (case diffPhase hashContent readFile discovered project options of
           Inl e \<Rightarrow> Inl e
         | Inr dp \<Rightarrow>
             if length (filesToProcess dp) = 0 then
               Inr (dpProject dp,
                    \<lparr>filesAdded = 0, filesModified = 0, filesRemoved = length (removedPaths dp),
                     filesUnchanged = unchangedCount dp, totalSymbols = 0, totalChunks = 0,
                     totalEmbeddings = 0\<rparr>)
             else
               (case laterPhases (filesToProcess dp) (dpCache dp) options (dpProject dp) of
                  Inl e \<Rightarrow> Inl e
                | Inr (project3, nSymbols, nChunks, nEmbeddings) \<Rightarrow>
                    (let s1 = setState (projectSqlite project3) ''last_indexed'' now;
                         s2 = (if optFull options then setState s1 ''last_full_index'' now else s1);
                         s3 = setState s2 ''embedding_model'' (projectEmbeddingModel project3);
                         s4 = setState s3 ''total_files'' (showNat (statsTotalFiles s3));
                         s5 = setState s4 ''total_chunks'' (showNat (statsTotalChunks s4)) in
                     Inr (project3\<lparr>projectSqlite := s5\<rparr>,
                          \<lparr>filesAdded = length (addedFiles dp),
                           filesModified = length (modifiedFiles dp),
                           filesRemoved = length (removedPaths dp),
                           filesUnchanged = unchangedCount dp,
                           totalSymbols = nSymbols, totalChunks = nChunks,
                           totalEmbeddings = nEmbeddings\<rparr>)))))"

section \<open>The chunker (\<^verbatim>\<open>chunkFile\<close> in \<^verbatim>\<open>indexer/chunker.ts\<close>)\<close>

datatype SymbolKind =
  KindFunction | KindClass | KindInterface | KindType | KindMethod | KindProperty
  | KindVariable | KindEnum | KindModule

text \<open>
  \<^verbatim>\<open>interface ExtractedSymbol\<close>, \<^verbatim>\<open>interface CodeChunk\<close> and \<^verbatim>\<open>interface ChunkRegion\<close>; a
  field whose name another record has taken carries a prefix.
\<close>

record ExtractedSymbol =
  symName :: string
  symKind :: SymbolKind
  symSignature :: string
  symStartLine :: int
  symEndLine :: int
  symStartCol :: int
  symEndCol :: int
  parentName :: "string option"
  symDocstring :: "string option"
  symExported :: bool
  bodyText :: string

record CodeChunk =
  chunkIndex :: int
  chunkContent :: string
  chunkStartLine :: int
  chunkEndLine :: int
  containedSymbolNames :: "string list"
  tokenCount :: int

record ChunkRegion =
  regionStartLine :: int
  regionEndLine :: int
  regionText :: string
  regionSymbolNames :: "string list"
  isSymbol :: bool

text \<open>\<^verbatim>\<open>source.split("\n")\<close>: never empty, \<^verbatim>\<open>"".split("\n")\<close> is \<^verbatim>\<open>[""]\<close>.\<close>

fun splitLines :: "string \<Rightarrow> string list" where
  "splitLines [] = [[]]"
| "splitLines (c # cs) =
     (if c = CHR ''\<newline>'' then [] # splitLines cs
      else (case splitLines cs of [] \<Rightarrow> [[c]] | l # ls \<Rightarrow> (c # l) # ls))"

text \<open>
  \<^verbatim>\<open>Array.prototype.slice(start, end)\<close>; a negative index counts from the end, and
  \<^const>\<open>None\<close> is a missing \<^verbatim>\<open>end\<close>.
\<close>

definition jsSlice :: "'a list \<Rightarrow> int \<Rightarrow> int option \<Rightarrow> 'a list" where
  "jsSlice xs start stop =
     (let len = int (length xs);
          k = (if start < 0 then max (len + start) 0 else min start len);
          final = (case stop of None \<Rightarrow> len
                   | Some e \<Rightarrow> if e < 0 then max (len + e) 0 else min e len) in
      take (nat (final - k)) (drop (nat k) xs))"

definition jsTrim :: "string \<Rightarrow> string" where
  "jsTrim s = rev (dropWhile isJsSpace (rev (dropWhile isJsSpace s)))"

definition buildChunkContent :: "string \<Rightarrow> string \<Rightarrow> int \<Rightarrow> int \<Rightarrow> string list \<Rightarrow> string" where
  "buildChunkContent path code fromLine toLine symbolNames =
     (let header0 = ''// File: '' @ path @ '' | Lines: '' @ showInt fromLine @ ''-'' @ showInt toLine;
          header = (if length symbolNames > 0
                    then header0 @ '' | Symbols: '' @ joinWith '', '' symbolNames
                    else header0) in
      header @ ''\<newline>'' @ code)"

text \<open>\<^verbatim>\<open>currentText + (currentText ? "\n" : "") + line\<close>.\<close>

definition appendLine :: "string \<Rightarrow> string \<Rightarrow> string" where
  "appendLine currentText line =
     currentText @ (if currentText \<noteq> [] then ''\<newline>'' else []) @ line"

text \<open>
  The inner \<^verbatim>\<open>while (lineEnd < regionLines.length)\<close> of \<^verbatim>\<open>splitRegion\<close> and
  \<^verbatim>\<open>chunkByLines\<close>: it returns \<^verbatim>\<open>lineEnd\<close> and \<^verbatim>\<open>currentText\<close>.
\<close>

function accumulateLines :: "string list \<Rightarrow> int \<Rightarrow> nat \<Rightarrow> nat \<Rightarrow> string \<Rightarrow> nat \<times> string" where
  "accumulateLines regionLines maxTokens lineStart lineEnd currentText =
     (if lineEnd < length regionLines then
        (let nextText = appendLine currentText (regionLines ! lineEnd) in
         if estimateTokens nextText > maxTokens \<and> lineEnd > lineStart then (lineEnd, currentText)
         else accumulateLines regionLines maxTokens lineStart (lineEnd + 1) nextText)
      else (lineEnd, currentText))"
  by pat_completeness auto
termination
  by (relation "measure (\<lambda>(regionLines, maxTokens, lineStart, lineEnd, currentText).
        length regionLines - lineEnd)") auto

declare accumulateLines.simps [simp del]

lemma accumulateLines_bounds:
  "lineEnd \<le> fst (accumulateLines regionLines maxTokens lineStart lineEnd currentText) \<and>
   (lineEnd \<le> length regionLines \<longrightarrow>
      fst (accumulateLines regionLines maxTokens lineStart lineEnd currentText) \<le> length regionLines) \<and>
   (lineEnd = lineStart \<and> lineStart < length regionLines \<longrightarrow>
      lineStart < fst (accumulateLines regionLines maxTokens lineStart lineEnd currentText))"
proof (induction regionLines maxTokens lineStart lineEnd currentText rule: accumulateLines.induct)
  case (1 regionLines maxTokens lineStart lineEnd currentText)
  let ?next = "appendLine currentText (regionLines ! lineEnd)"
  show ?case
  proof (cases "lineEnd < length regionLines")
    case False
    then have unf: "accumulateLines regionLines maxTokens lineStart lineEnd currentText
                      = (lineEnd, currentText)"
      by (subst accumulateLines.simps) simp
    show ?thesis unfolding unf fst_conv using False by auto
  next
    case True
    show ?thesis
    proof (cases "estimateTokens ?next > maxTokens \<and> lineEnd > lineStart")
      case stop: True
      then have unf: "accumulateLines regionLines maxTokens lineStart lineEnd currentText
                        = (lineEnd, currentText)"
        using True by (subst accumulateLines.simps) (simp add: Let_def)
      show ?thesis unfolding unf fst_conv using True stop by auto
    next
      case go: False
      have unf: "accumulateLines regionLines maxTokens lineStart lineEnd currentText =
                   accumulateLines regionLines maxTokens lineStart (lineEnd + 1) ?next"
        using True go by (subst accumulateLines.simps) (auto simp: Let_def)
      from "1.IH"[OF True refl go] show ?thesis
        unfolding unf using True by auto
    qed
  qed
qed

text \<open>
  The outer \<^verbatim>\<open>while (lineStart < regionLines.length)\<close> of \<^verbatim>\<open>splitRegion\<close>, with the
  loop variables \<^verbatim>\<open>lineStart\<close>, \<^verbatim>\<open>chunkIndex\<close> and \<^verbatim>\<open>chunks\<close>.
\<close>

function splitRegion_loop ::
  "ChunkRegion \<Rightarrow> string \<Rightarrow> int \<Rightarrow> string list \<Rightarrow> nat \<Rightarrow> int \<Rightarrow> CodeChunk list \<Rightarrow> CodeChunk list" where
  "splitRegion_loop region path maxTokens regionLines lineStart chunkIdx chunks =
     (if lineStart < length regionLines then
        (let (lineEnd, currentText) = accumulateLines regionLines maxTokens lineStart lineStart [];
             absStartLine = regionStartLine region + int lineStart;
             absEndLine = regionStartLine region + int lineEnd - 1;
             chunkText = buildChunkContent path currentText absStartLine absEndLine
                           (regionSymbolNames region) in
         splitRegion_loop region path maxTokens regionLines lineEnd (chunkIdx + 1)
           (chunks @ [\<lparr>chunkIndex = chunkIdx, chunkContent = chunkText,
                        chunkStartLine = absStartLine, chunkEndLine = absEndLine,
                        containedSymbolNames = regionSymbolNames region,
                        tokenCount = estimateTokens chunkText\<rparr>]))
      else chunks)"
  by pat_completeness auto
termination
proof (relation "measure (\<lambda>(region, path, maxTokens, regionLines, lineStart, chunkIdx, chunks).
        length regionLines - lineStart)", goal_cases)
  case 1
  show ?case by simp
next
  case (2 region path maxTokens regionLines lineStart chunkIdx chunks x lineEnd currentText)
  then have "lineEnd = fst (accumulateLines regionLines maxTokens lineStart lineStart [])"
    by (metis fst_conv)
  then have "lineStart < lineEnd \<and> lineEnd \<le> length regionLines"
    using accumulateLines_bounds[of lineStart regionLines maxTokens lineStart "[]"] 2(1) by simp
  then have "length regionLines - lineEnd < length regionLines - lineStart"
    by linarith
  then show ?case by simp
qed

declare splitRegion_loop.simps [simp del]

definition splitRegion :: "ChunkRegion \<Rightarrow> string \<Rightarrow> int \<Rightarrow> int \<Rightarrow> CodeChunk list" where
  "splitRegion region path maxTokens startIndex =
     splitRegion_loop region path maxTokens (splitLines (regionText region)) 0 startIndex []"

text \<open>The loop of \<^verbatim>\<open>chunkByLines\<close>, which the source writes out a second time.\<close>

function chunkByLines_loop ::
  "string \<Rightarrow> int \<Rightarrow> string list \<Rightarrow> nat \<Rightarrow> int \<Rightarrow> CodeChunk list \<Rightarrow> CodeChunk list" where
  "chunkByLines_loop path maxTokens lines lineStart chunkIdx chunks =
     (if lineStart < length lines then
        (let (lineEnd, currentText) = accumulateLines lines maxTokens lineStart lineStart [];
             chunkText = buildChunkContent path currentText (int lineStart + 1) (int lineEnd) [] in
         chunkByLines_loop path maxTokens lines lineEnd (chunkIdx + 1)
           (chunks @ [\<lparr>chunkIndex = chunkIdx, chunkContent = chunkText,
                        chunkStartLine = int lineStart + 1, chunkEndLine = int lineEnd,
                        containedSymbolNames = [],
                        tokenCount = estimateTokens chunkText\<rparr>]))
      else chunks)"
  by pat_completeness auto
termination
proof (relation "measure (\<lambda>(path, maxTokens, lines, lineStart, chunkIdx, chunks).
        length lines - lineStart)", goal_cases)
  case 1
  show ?case by simp
next
  case (2 path maxTokens lines lineStart chunkIdx chunks x lineEnd currentText)
  then have "lineEnd = fst (accumulateLines lines maxTokens lineStart lineStart [])"
    by (metis fst_conv)
  then have "lineStart < lineEnd \<and> lineEnd \<le> length lines"
    using accumulateLines_bounds[of lineStart lines maxTokens lineStart "[]"] 2(1) by simp
  then have "length lines - lineEnd < length lines - lineStart"
    by linarith
  then show ?case by simp
qed

declare chunkByLines_loop.simps [simp del]

definition chunkByLines :: "string \<Rightarrow> string \<Rightarrow> int \<Rightarrow> CodeChunk list" where
  "chunkByLines source path maxTokens =
     chunkByLines_loop path maxTokens (splitLines source) 0 0 []"

text \<open>
  The loop over the sorted top-level symbols, with the loop variables \<^verbatim>\<open>currentLine\<close>
  and \<^verbatim>\<open>regions\<close>; \<^verbatim>\<open>continue\<close> goes on with the next symbol.
\<close>

fun buildRegions ::
  "string list \<Rightarrow> ExtractedSymbol list \<Rightarrow> ExtractedSymbol list \<Rightarrow> int \<Rightarrow> ChunkRegion list \<Rightarrow>
   int \<times> ChunkRegion list" where
  "buildRegions lines allSymbols [] currentLine regions = (currentLine, regions)"
| "buildRegions lines allSymbols (symb # rest) currentLine regions =
     (if symStartLine symb < currentLine then buildRegions lines allSymbols rest currentLine regions
      else
        (let regions1 =
               (if symStartLine symb > currentLine then
                  (let gapText = joinWith ''\<newline>''
                                   (jsSlice lines (currentLine - 1) (Some (symStartLine symb - 1))) in
                   if length (jsTrim gapText) > 0 then
                     regions @ [\<lparr>regionStartLine = currentLine, regionEndLine = symStartLine symb - 1,
                                  regionText = gapText, regionSymbolNames = [], isSymbol = False\<rparr>]
                   else regions)
                else regions);
             symText = joinWith ''\<newline>''
                         (jsSlice lines (symStartLine symb - 1) (Some (symEndLine symb)));
             childNames = map symName (filter (\<lambda>s. parentName s = Some (symName symb)) allSymbols) in
         buildRegions lines allSymbols rest (symEndLine symb + 1)
           (regions1 @ [\<lparr>regionStartLine = symStartLine symb, regionEndLine = symEndLine symb,
                          regionText = symText, regionSymbolNames = symName symb # childNames,
                          isSymbol = True\<rparr>])))"

definition headerOverhead :: int where
  "headerOverhead = 20"

text \<open>The loop that turns regions into chunks, with \<^verbatim>\<open>chunkIndex\<close> and \<^verbatim>\<open>chunks\<close>.\<close>

fun regionsToChunks ::
  "string \<Rightarrow> int \<Rightarrow> ChunkRegion list \<Rightarrow> int \<Rightarrow> CodeChunk list \<Rightarrow> CodeChunk list" where
  "regionsToChunks path maxTokens [] chunkIdx chunks = chunks"
| "regionsToChunks path maxTokens (region # rest) chunkIdx chunks =
     (let regionTokens = estimateTokens (regionText region);
          effectiveMax = maxTokens - headerOverhead in
      if regionTokens \<le> effectiveMax then
        (let chunkText = buildChunkContent path (regionText region) (regionStartLine region)
                           (regionEndLine region) (regionSymbolNames region) in
         regionsToChunks path maxTokens rest (chunkIdx + 1)
           (chunks @ [\<lparr>chunkIndex = chunkIdx, chunkContent = chunkText,
                        chunkStartLine = regionStartLine region,
                        chunkEndLine = regionEndLine region,
                        containedSymbolNames = regionSymbolNames region,
                        tokenCount = estimateTokens chunkText\<rparr>]))
      else
        (let subChunks = splitRegion region path maxTokens chunkIdx in
         regionsToChunks path maxTokens rest (chunkIdx + int (length subChunks))
           (chunks @ subChunks)))"

text \<open>
  \<^verbatim>\<open>chunkFile\<close>. \<^verbatim>\<open>!s.parentName\<close> holds for a missing and for an empty parent name;
  \<^verbatim>\<open>sort\<close> is stable, as \<^const>\<open>sort_key\<close> is.
\<close>

definition chunkFile :: "string \<Rightarrow> string \<Rightarrow> ExtractedSymbol list \<Rightarrow> int \<Rightarrow> CodeChunk list" where
  "chunkFile source path allSymbols maxTokens =
     (let lines = splitLines source in
      if length lines = 0 then []
      else
        (let fileTokens = estimateTokens source in
         if fileTokens \<le> maxTokens then
           (let symbolNames = map symName allSymbols;
                chunkText = buildChunkContent path source 1 (int (length lines)) symbolNames in
            [\<lparr>chunkIndex = 0, chunkContent = chunkText, chunkStartLine = 1,
              chunkEndLine = int (length lines), containedSymbolNames = symbolNames,
              tokenCount = estimateTokens chunkText\<rparr>])
         else
           (let topLevelSymbols =
                  sort_key symStartLine
                    (filter (\<lambda>s. (parentName s = None \<or> parentName s = Some []) \<or> symKind s = KindClass)
                       allSymbols);
                (currentLine, regions0) = buildRegions lines allSymbols topLevelSymbols 1 [];
                regions =
                  (if currentLine \<le> int (length lines) then
                     (let trailingText = joinWith ''\<newline>'' (jsSlice lines (currentLine - 1) None) in
                      if length (jsTrim trailingText) > 0 then
                        regions0 @ [\<lparr>regionStartLine = currentLine,
                                      regionEndLine = int (length lines),
                                      regionText = trailingText, regionSymbolNames = [],
                                      isSymbol = False\<rparr>]
                      else regions0)
                   else regions0) in
            if length regions = 0 then chunkByLines source path maxTokens
            else regionsToChunks path maxTokens regions 0 [])))"

text \<open>The default \<^verbatim>\<open>maxTokens: number = 512\<close>.\<close>

definition chunkFile_default :: "string \<Rightarrow> string \<Rightarrow> ExtractedSymbol list \<Rightarrow> CodeChunk list" where
  "chunkFile_default source path allSymbols = chunkFile source path allSymbols 512"

text \<open>
  A line is covered when it lies in the range of some chunk; a line is blank when
  \<^verbatim>\<open>trim\<close> leaves nothing of it.
\<close>

definition lineCovered :: "CodeChunk list \<Rightarrow> int \<Rightarrow> bool" where
  "lineCovered chunks n \<longleftrightarrow> list_ex (\<lambda>c. chunkStartLine c \<le> n \<and> n \<le> chunkEndLine c) chunks"

definition chunkRanges :: "CodeChunk list \<Rightarrow> (int \<times> int) list" where
  "chunkRanges chunks = map (\<lambda>c. (chunkStartLine c, chunkEndLine c)) chunks"

definition blankLine :: "string \<Rightarrow> bool" where
  "blankLine l \<longleftrightarrow> jsTrim l = []"

text \<open>
  What the regions of a file have in common: a region lies within the file, and its
  text is the lines of its range. A line is within the regions when some region's range
  holds it.
\<close>

definition regionWellFormed :: "string list \<Rightarrow> ChunkRegion \<Rightarrow> bool" where
  "regionWellFormed lines r \<longleftrightarrow>
     1 \<le> regionStartLine r \<and> regionStartLine r \<le> regionEndLine r \<and>
     regionEndLine r \<le> int (length lines) \<and>
     regionText r =
       joinWith ''\<newline>'' (jsSlice lines (regionStartLine r - 1) (Some (regionEndLine r)))"

definition regionsCover :: "ChunkRegion list \<Rightarrow> int \<Rightarrow> bool" where
  "regionsCover regions n \<longleftrightarrow>
     list_ex (\<lambda>r. regionStartLine r \<le> n \<and> n \<le> regionEndLine r) regions"

section \<open>Example inputs\<close>

text \<open>An input for the budget step.\<close>

definition budgetExample :: "SearchResult list" where
  "budgetExample =
     [\<lparr>filePath = ''a.ts'', startLine = 1, endLine = 3, content = ''export function foo() {}'',
       score = 1, matchType = MatchKeyword, symbols = [''foo''], language = ''typescript''\<rparr>]"

text \<open>Three results of one file, the second overlapping the first.\<close>

definition dedupExample :: "SearchResult list" where
  "dedupExample =
     [\<lparr>filePath = ''a.ts'', startLine = 1, endLine = 5, content = ''x'', score = 3,
       matchType = MatchVector, symbols = [], language = ''typescript''\<rparr>,
      \<lparr>filePath = ''a.ts'', startLine = 3, endLine = 8, content = ''y'', score = 2,
       matchType = MatchKeyword, symbols = [], language = ''typescript''\<rparr>,
      \<lparr>filePath = ''a.ts'', startLine = 6, endLine = 9, content = ''z'', score = 1,
       matchType = MatchSymbol, symbols = [], language = ''typescript''\<rparr>]"

text \<open>One new file, one unchanged, one whose size changed, and one persisted path that is gone.\<close>

definition diffExampleFiles :: "DiscoveredFile list" where
  "diffExampleFiles =
     [\<lparr>absolutePath = ''/r/a.ts'', relativePath = ''a.ts'', fileLanguage = Some ''typescript'',
       sizeBytes = 10\<rparr>,
      \<lparr>absolutePath = ''/r/b.ts'', relativePath = ''b.ts'', fileLanguage = Some ''typescript'',
       sizeBytes = 20\<rparr>,
      \<lparr>absolutePath = ''/r/c.ts'', relativePath = ''c.ts'', fileLanguage = Some ''typescript'',
       sizeBytes = 30\<rparr>]"

definition diffExampleHashes :: "(string, string) JsMap" where
  "diffExampleHashes = [(''b.ts'', ''h1''), (''c.ts'', ''h2''), (''d.ts'', ''h3'')]"

definition diffExampleSizes :: "(string, int) JsMap" where
  "diffExampleSizes = [(''b.ts'', 20), (''c.ts'', 31), (''d.ts'', 5)]"

text \<open>
  The hybrid scenario: a document at rank 0 of the vector source (weight 0.5) and at
  rank 2 of the keyword source (weight 0.3), absent from the symbol source.
\<close>

definition rrfDoc :: "string \<Rightarrow> int \<Rightarrow> int \<Rightarrow> string \<Rightarrow> SearchResult" where
  "rrfDoc path a b body =
     \<lparr>filePath = path, startLine = a, endLine = b, content = body, score = 0,
      matchType = MatchVector, symbols = [], language = ''typescript''\<rparr>"

definition rrfExample :: "RankedSource list" where
  "rrfExample =
     [\<lparr>sourceResults = [rrfDoc ''d.ts'' 1 9 ''dd'', rrfDoc ''e.ts'' 1 4 ''e''], sourceWeight = 0.5\<rparr>,
      \<lparr>sourceResults = [rrfDoc ''f.ts'' 2 3 ''f'', rrfDoc ''e.ts'' 1 4 ''e'', rrfDoc ''d.ts'' 1 9 ''d''],
       sourceWeight = 0.3\<rparr>,
      \<lparr>sourceResults = [], sourceWeight = 0.2\<rparr>]"

text \<open>
  A store with one file, a chunk row that the full-text index ranks 0, and a symbol
  whose importance is the normalised maximum 1.
\<close>

definition searchStore :: SqliteStore where
  "searchStore =
     \<lparr>files = [\<lparr>fr_id = 1, fr_path = ''a.ts'', fr_language = Some ''typescript'',
                 fr_size_bytes = 36, fr_content_hash = ''h'', fr_line_count = Some 1\<rparr>],
      symbolRows = [], chunkRows = [], graph_edges = [], file_dependencies = [],
      index_state = Map.empty\<rparr>"

definition rankZeroRow :: RankedChunk where
  "rankZeroRow =
     \<lparr>cr_id = 1, cr_file_id = 1, cr_chunk_index = 0, cr_content = ''export function foo() {}'',
      cr_start_line = 1, cr_end_line = 1, cr_symbol_ids = None, cr_token_count = Some 7,
      cr_rank = 0\<rparr>"

definition topSymbol :: SymbolRecord where
  "topSymbol =
     \<lparr>sr_id = 1, sr_file_id = 1, sr_name = ''foo'', sr_kind = ''function'',
      sr_signature = Some ''export function foo()'', sr_start_line = 1, sr_end_line = 1,
      sr_parent_symbol_id = None, sr_docstring = None, sr_exported = 1,
      sr_importance_score = 1\<rparr>"

text \<open>
  A full-text index that answers every query with that chunk row, one that answers with
  that symbol, and a \<^verbatim>\<open>JSON.parse\<close> that is never reached.
\<close>

definition rankZeroIndex :: "string \<Rightarrow> int \<Rightarrow> RankedChunk list option" where
  "rankZeroIndex ftsQuery limit = Some [rankZeroRow]"

definition topSymbolIndex :: "string \<Rightarrow> int \<Rightarrow> SymbolRecord list option" where
  "topSymbolIndex ftsQuery limit = Some [topSymbol]"

definition jsonParseFails :: "string \<Rightarrow> string list option" where
  "jsonParseFails text = None"

text \<open>The same chunk row with the rank -3, and an index that answers with it.\<close>

definition rankedRow :: RankedChunk where
  "rankedRow = rankZeroRow\<lparr>cr_rank := - 3\<rparr>"

definition rankedIndex :: "string \<Rightarrow> int \<Rightarrow> RankedChunk list option" where
  "rankedIndex ftsQuery limit = Some [rankedRow]"

text \<open>
  A store after indexing one file with a single function: one symbol, inserted with
  importance 0, and no edge. And a store with two symbols and a call edge between them.
\<close>

definition loneSymbolStore :: SqliteStore where
  "loneSymbolStore = searchStore\<lparr>symbolRows := [topSymbol\<lparr>sr_importance_score := 0\<rparr>]\<rparr>"

definition twoSymbolStore :: SqliteStore where
  "twoSymbolStore =
     searchStore\<lparr>
       symbolRows := [topSymbol\<lparr>sr_importance_score := 0\<rparr>,
                      topSymbol\<lparr>sr_id := 2, sr_name := ''bar'', sr_importance_score := 0\<rparr>],
       graph_edges := [\<lparr>ge_source_symbol_id = 1, ge_target_symbol_id = 2, ge_edge_type = ''calls'',
                        ge_weight = 1, ge_source_file_id = Some 1, ge_target_file_id = Some 1\<rparr>]\<rparr>"

text \<open>
  A project that has just been initialised (empty tables, empty state), the options of a
  plain \<^verbatim>\<open>index\<close> run, later phases that would change nothing, a stand-in for the
  hash, a file system without readable files, and a time stamp.
\<close>

definition freshProject :: Project where
  "freshProject =
     \<lparr>projectSqlite = \<lparr>files = [], symbolRows = [], chunkRows = [], graph_edges = [],
                 file_dependencies = [], index_state = Map.empty\<rparr>,
      projectLance = [], projectEmbeddingModel = ''Xenova/all-MiniLM-L6-v2''\<rparr>"

definition plainRun :: IndexOptions where
  "plainRun = \<lparr>optFull = False, optGenerateSummaries = False, optDryRun = False\<rparr>"

definition idlePhases ::
  "DiscoveredFile list \<Rightarrow> (string \<rightharpoonup> CacheEntry) \<Rightarrow> IndexOptions \<Rightarrow> Project \<Rightarrow>
   PipelineError + (Project \<times> nat \<times> nat \<times> nat)" where
  "idlePhases todo cache options project = Inr (project, 0, 0, 0)"

definition plainHash :: "string \<Rightarrow> string" where
  "plainHash text = text"

definition nothingReadable :: "string \<Rightarrow> string option" where
  "nothingReadable path = None"

definition someInstant :: string where
  "someInstant = ''2026-01-01T00:00:00.000Z''"

text \<open>A top-level function on the given lines.\<close>

definition functionAt :: "string \<Rightarrow> int \<Rightarrow> int \<Rightarrow> ExtractedSymbol" where
  "functionAt name a b =
     \<lparr>symName = name, symKind = KindFunction, symSignature = name, symStartLine = a,
      symEndLine = b, symStartCol = 0, symEndCol = 0, parentName = None, symDocstring = None,
      symExported = True, bodyText = []\<rparr>"

text \<open>
  A first line that holds one space, then a function on line 2; three short lines; a
  long line followed by a short one.
\<close>

definition indentedSource :: string where
  "indentedSource = '' \<newline>abcdef''"

definition threeLines :: string where
  "threeLines = ''abc\<newline>def\<newline>ghi''"

definition longLine :: string where
  "longLine = ''aaaaaaaaaaaa\<newline>b''"

text \<open>
  Sources without a visible character: three lines of three spaces each; a line of
  twelve spaces followed by a line of one space.
\<close>

definition blankLines :: string where
  "blankLines = joinWith ''\<newline>'' (replicate 3 (replicate 3 CHR '' ''))"

definition blankLongLine :: string where
  "blankLongLine = joinWith ''\<newline>'' [replicate 12 CHR '' '', replicate 1 CHR '' '']"

section \<open>Properties of the token budget\<close>

lemma resultsCost_append: "resultsCost (xs @ ys) = resultsCost xs + resultsCost ys"
  by (simp add: resultsCost_def)

lemma resultsCost_nonneg: "0 \<le> resultsCost xs"
  unfolding resultsCost_def
  by (induction xs) (simp_all add: estimateTokens_nonneg)

lemma applyTokenBudget_loop_shape:
  "\<exists>n tail. n \<le> length rs \<and>
     applyTokenBudget_loop rs budget budgeted tokensUsed = budgeted @ take n rs @ tail \<and>
     (tokensUsed \<le> budget \<longrightarrow> tokensUsed + resultsCost (take n rs) \<le> budget) \<and>
     (tail = [] \<or>
      (n < length rs \<and> budget - (tokensUsed + resultsCost (take n rs)) > 100 \<and>
       tail = [(rs ! n)\<lparr>content :=
                 take (nat ((budget - (tokensUsed + resultsCost (take n rs))) * 3)) (content (rs ! n))
                 @ truncatedMarker\<rparr>]))"
proof (induction rs arbitrary: budgeted tokensUsed)
  case Nil
  show ?case by (simp add: resultsCost_def)
next
  case (Cons r rs)
  let ?tokens = "estimateTokens (content r) + 20"
  show ?case
  proof (cases "tokensUsed + ?tokens > budget")
    case True
    show ?thesis
    proof (cases "budget - tokensUsed > 100")
      case big: True
      have "applyTokenBudget_loop (r # rs) budget budgeted tokensUsed =
              budgeted @ take 0 (r # rs) @
                [r\<lparr>content := take (nat ((budget - tokensUsed) * 3)) (content r) @ truncatedMarker\<rparr>]"
        using True big by (simp add: Let_def)
      then show ?thesis
        using big by (intro exI[of _ 0] exI) (auto simp: resultsCost_def)
    next
      case small: False
      have "applyTokenBudget_loop (r # rs) budget budgeted tokensUsed = budgeted @ take 0 (r # rs) @ []"
        using True small by (simp add: Let_def)
      then show ?thesis
        by (intro exI[of _ 0] exI[of _ "[]"]) (auto simp: resultsCost_def)
    qed
  next
    case False
    from Cons.IH[of "budgeted @ [r]" "tokensUsed + ?tokens"]
    obtain n tail where n: "n \<le> length rs"
      and eq: "applyTokenBudget_loop rs budget (budgeted @ [r]) (tokensUsed + ?tokens)
                 = (budgeted @ [r]) @ take n rs @ tail"
      and le: "tokensUsed + ?tokens \<le> budget \<longrightarrow>
                 tokensUsed + ?tokens + resultsCost (take n rs) \<le> budget"
      and tl: "tail = [] \<or>
        (n < length rs \<and> budget - (tokensUsed + ?tokens + resultsCost (take n rs)) > 100 \<and>
         tail = [(rs ! n)\<lparr>content :=
                 take (nat ((budget - (tokensUsed + ?tokens + resultsCost (take n rs))) * 3))
                   (content (rs ! n)) @ truncatedMarker\<rparr>])"
      by blast
    have cost: "resultsCost (take (Suc n) (r # rs)) = ?tokens + resultsCost (take n rs)"
      by (simp add: resultsCost_def)
    have "applyTokenBudget_loop (r # rs) budget budgeted tokensUsed
            = budgeted @ take (Suc n) (r # rs) @ tail"
      using False eq by (simp add: Let_def)
    moreover have "tokensUsed \<le> budget \<longrightarrow> tokensUsed + resultsCost (take (Suc n) (r # rs)) \<le> budget"
      using le False cost by linarith
    moreover have "tail = [] \<or>
      (Suc n < length (r # rs) \<and>
       budget - (tokensUsed + resultsCost (take (Suc n) (r # rs))) > 100 \<and>
       tail = [((r # rs) ! Suc n)\<lparr>content :=
                 take (nat ((budget - (tokensUsed + resultsCost (take (Suc n) (r # rs)))) * 3))
                   (content ((r # rs) ! Suc n)) @ truncatedMarker\<rparr>])"
      using tl cost by (simp add: add.assoc)
    ultimately show ?thesis
      using n by (intro exI[of _ "Suc n"] exI[of _ tail]) simp
  qed
qed

lemma applyTokenBudget_negative:
  "budget < 0 \<Longrightarrow> applyTokenBudget results budget = []"
  unfolding applyTokenBudget_def
  using estimateTokens_nonneg[of "content (hd results)"]
  by (cases results) (auto simp: Let_def)

text \<open>
  C4. For every result list and every budget, \<^const>\<open>applyTokenBudget\<close> returns a prefix
  \<open>take n results\<close> of the list, kept in full, followed by at most one truncated result.
  The cost of the prefix (estimated tokens of the content plus 20 per result) does not
  exceed a budget that is not negative; under a negative budget nothing is returned.
  A truncated result is appended only when the remaining budget
  \<open>budget - resultsCost (take n results)\<close> exceeds 100; it is the next result of the
  list, with the first \<open>3 * remaining\<close> characters of its content followed by
  \<^const>\<open>truncatedMarker\<close>.
\<close>

theorem applyTokenBudget_within_budget:
  "\<exists>n tail. n \<le> length results \<and>
     applyTokenBudget results budget = take n results @ tail \<and>
     (0 \<le> budget \<longrightarrow> resultsCost (take n results) \<le> budget) \<and>
     (budget < 0 \<longrightarrow> applyTokenBudget results budget = []) \<and>
     (tail = [] \<or>
      (n < length results \<and> budget - resultsCost (take n results) > 100 \<and>
       tail = [(results ! n)\<lparr>content :=
                 take (nat (3 * (budget - resultsCost (take n results)))) (content (results ! n))
                 @ truncatedMarker\<rparr>]))"
proof -
  from applyTokenBudget_loop_shape[of results budget "[]" 0]
  obtain n tail where n: "n \<le> length results"
    and eq: "applyTokenBudget_loop results budget [] 0 = [] @ take n results @ tail"
    and le: "0 \<le> budget \<longrightarrow> 0 + resultsCost (take n results) \<le> budget"
    and tl: "tail = [] \<or>
      (n < length results \<and> budget - (0 + resultsCost (take n results)) > 100 \<and>
       tail = [(results ! n)\<lparr>content :=
                 take (nat ((budget - (0 + resultsCost (take n results))) * 3)) (content (results ! n))
                 @ truncatedMarker\<rparr>])"
    by blast
  have "applyTokenBudget results budget = take n results @ tail"
    using eq by (simp add: applyTokenBudget_def)
  moreover have "0 \<le> budget \<longrightarrow> resultsCost (take n results) \<le> budget"
    using le by simp
  moreover have "budget < 0 \<longrightarrow> applyTokenBudget results budget = []"
    by (simp add: applyTokenBudget_negative)
  moreover have "tail = [] \<or>
      (n < length results \<and> budget - resultsCost (take n results) > 100 \<and>
       tail = [(results ! n)\<lparr>content :=
                 take (nat (3 * (budget - resultsCost (take n results)))) (content (results ! n))
                 @ truncatedMarker\<rparr>])"
    using tl by (simp add: mult.commute)
  ultimately show ?thesis
    using n by blast
qed

theorem applyTokenBudget_within_budget_witness:
  "(0::int) \<le> 40 \<and>
   (\<exists>n tail. n \<le> length budgetExample \<and>
     applyTokenBudget budgetExample 40 = take n budgetExample @ tail \<and>
     resultsCost (take n budgetExample) \<le> 40 \<and>
     (tail = [] \<or>
      (n < length budgetExample \<and> 40 - resultsCost (take n budgetExample) > 100 \<and>
       tail = [(budgetExample ! n)\<lparr>content :=
                 take (nat (3 * (40 - resultsCost (take n budgetExample))))
                   (content (budgetExample ! n)) @ truncatedMarker\<rparr>])))"
  using applyTokenBudget_within_budget[of budgetExample 40] by simp

text \<open>
  Under a negative budget the bound fails: \<^const>\<open>applyTokenBudget\<close> returns no result,
  and the cost 0 of the empty list exceeds the budget \<open>-1\<close>.
\<close>

theorem applyTokenBudget_negative_budget_counterexample:
  "applyTokenBudget budgetExample (- 1) = [] \<and>
   resultsCost (applyTokenBudget budgetExample (- 1)) = 0 \<and>
   \<not> resultsCost (applyTokenBudget budgetExample (- 1)) \<le> - 1"
  by code_simp

section \<open>Properties of deduplication\<close>

lemma resultsOverlap_check:
  assumes "resultsOverlap a b"
  shows "filePath a = filePath b \<and> startLine b \<le> endLine a \<and> endLine b \<ge> startLine a"
proof -
  from assms obtain x where "x \<in> {startLine a..endLine a}" "x \<in> {startLine b..endLine b}"
    unfolding resultsOverlap_def by blast
  then show ?thesis
    using assms unfolding resultsOverlap_def by auto
qed

lemma deduplicateResults_filter_subseq:
  "subseq (deduplicateResults_filter rs seen) rs"
  by (induction rs arbitrary: seen) (auto simp: Let_def)

lemma deduplicateResults_filter_avoids_seen:
  "x \<in> set (deduplicateResults_filter rs seen) \<Longrightarrow> s \<in> set seen \<Longrightarrow>
   \<not> (seenFilePath s = filePath x \<and> startLine x \<le> seenEndLine s \<and> endLine x \<ge> seenStartLine s)"
proof (induction rs arbitrary: seen)
  case Nil
  then show ?case by simp
next
  case (Cons r rs)
  show ?case
  proof (cases "list_ex (\<lambda>s. seenFilePath s = filePath r \<and> startLine r \<le> seenEndLine s \<and>
                            endLine r \<ge> seenStartLine s) seen")
    case True
    then have "x \<in> set (deduplicateResults_filter rs seen)"
      using Cons.prems(1) by (simp add: Let_def)
    then show ?thesis using Cons.IH Cons.prems(2) by blast
  next
    case False
    let ?seen' = "seen @ [\<lparr>seenFilePath = filePath r, seenStartLine = startLine r,
                            seenEndLine = endLine r\<rparr>]"
    from False Cons.prems(1)
    have "x = r \<or> x \<in> set (deduplicateResults_filter rs ?seen')"
      by (simp add: Let_def)
    then show ?thesis
    proof
      assume "x = r"
      then show ?thesis using False Cons.prems(2) by (auto simp: list_ex_iff)
    next
      assume "x \<in> set (deduplicateResults_filter rs ?seen')"
      moreover have "s \<in> set ?seen'" using Cons.prems(2) by simp
      ultimately show ?thesis using Cons.IH by blast
    qed
  qed
qed

lemma deduplicateResults_filter_no_overlap:
  "sorted_wrt (\<lambda>a b. \<not> resultsOverlap a b) (deduplicateResults_filter rs seen)"
proof (induction rs arbitrary: seen)
  case Nil
  show ?case by simp
next
  case (Cons r rs)
  let ?seen' = "seen @ [\<lparr>seenFilePath = filePath r, seenStartLine = startLine r,
                          seenEndLine = endLine r\<rparr>]"
  have "\<not> resultsOverlap r x" if "x \<in> set (deduplicateResults_filter rs ?seen')" for x
  proof
    assume "resultsOverlap r x"
    from resultsOverlap_check[OF this]
    have "filePath r = filePath x \<and> startLine x \<le> endLine r \<and> endLine x \<ge> startLine r" .
    moreover have "\<lparr>seenFilePath = filePath r, seenStartLine = startLine r,
                     seenEndLine = endLine r\<rparr> \<in> set ?seen'"
      by simp
    ultimately show False
      using deduplicateResults_filter_avoids_seen[OF that, of
          "\<lparr>seenFilePath = filePath r, seenStartLine = startLine r, seenEndLine = endLine r\<rparr>"]
      by simp
  qed
  then show ?case
    using Cons.IH by (simp add: Let_def)
qed

text \<open>
  C6. For every input list, no two results retained by \<^const>\<open>deduplicateResults\<close> have the
  same file path together with intersecting closed line intervals, and the retained
  results are a subsequence of the input (same relative order).
\<close>

theorem deduplicateResults_no_overlap:
  "subseq (deduplicateResults results) results \<and>
   (\<forall>i j. i < j \<and> j < length (deduplicateResults results) \<longrightarrow>
      \<not> resultsOverlap (deduplicateResults results ! i) (deduplicateResults results ! j))"
  unfolding deduplicateResults_def
  using deduplicateResults_filter_subseq[of results "[]"]
        deduplicateResults_filter_no_overlap[of results "[]"]
  by (simp add: sorted_wrt_iff_nth_less)

theorem deduplicateResults_no_overlap_witness:
  "(0::nat) < 1 \<and> 1 < length (deduplicateResults dedupExample) \<and>
   subseq (deduplicateResults dedupExample) dedupExample \<and>
   \<not> resultsOverlap (deduplicateResults dedupExample ! 0) (deduplicateResults dedupExample ! 1)"
proof -
  have len: "length (deduplicateResults dedupExample) = 2"
    by (simp add: deduplicateResults_def dedupExample_def)
  show ?thesis
    using deduplicateResults_no_overlap[of dedupExample] len by simp
qed

section \<open>Properties of the incremental diff\<close>

lemma computeDiff_loop_classifies:
  "computeDiff_loop hashContent readFile pending existingHashes existingSizes st = Inr st' \<Longrightarrow>
   mset (classifiedPaths st') = mset (classifiedPaths st) + mset (map relativePath pending) \<and>
   seenPaths st' = seenPaths st \<union> set (map relativePath pending) \<and>
   set (stAdded st') \<subseteq> set (stAdded st) \<union> set pending \<and>
   set (stModified st') \<subseteq> set (stModified st) \<union> set pending"
proof (induction pending arbitrary: st)
  case Nil
  then show ?case by simp
next
  case (Cons f rest)
  have step: "mset (classifiedPaths st') = mset (classifiedPaths st) + mset (map relativePath (f # rest)) \<and>
       seenPaths st' = seenPaths st \<union> set (map relativePath (f # rest)) \<and>
       set (stAdded st') \<subseteq> set (stAdded st) \<union> set (f # rest) \<and>
       set (stModified st') \<subseteq> set (stModified st) \<union> set (f # rest)"
    if run: "computeDiff_loop hashContent readFile rest existingHashes existingSizes st2 = Inr st'"
      and cl: "mset (classifiedPaths st2) = mset (classifiedPaths st) + {#relativePath f#}"
      and seen: "seenPaths st2 = insert (relativePath f) (seenPaths st)"
      and ad: "set (stAdded st2) \<subseteq> set (stAdded st) \<union> {f}"
      and md: "set (stModified st2) \<subseteq> set (stModified st) \<union> {f}"
    for st2
  proof -
    from Cons.IH[OF run]
    have "mset (classifiedPaths st') = mset (classifiedPaths st2) + mset (map relativePath rest)"
      and "seenPaths st' = seenPaths st2 \<union> set (map relativePath rest)"
      and "set (stAdded st') \<subseteq> set (stAdded st2) \<union> set rest"
      and "set (stModified st') \<subseteq> set (stModified st2) \<union> set rest"
      by blast+
    then show ?thesis using cl seen ad md by auto
  qed
  have "\<exists>st2. computeDiff_loop hashContent readFile rest existingHashes existingSizes st2 = Inr st' \<and>
      mset (classifiedPaths st2) = mset (classifiedPaths st) + {#relativePath f#} \<and>
      seenPaths st2 = insert (relativePath f) (seenPaths st) \<and>
      set (stAdded st2) \<subseteq> set (stAdded st) \<union> {f} \<and>
      set (stModified st2) \<subseteq> set (stModified st) \<union> {f}"
    using Cons.prems
    by (fastforce simp: Let_def classifiedPaths_def split: option.splits if_splits)
  then show ?case using step by blast
qed

lemma computeDiff_loop_total:
  "\<forall>f \<in> set pending. readFile (absolutePath f) \<noteq> None \<Longrightarrow>
   \<exists>st'. computeDiff_loop hashContent readFile pending existingHashes existingSizes st = Inr st'"
  by (induction pending arbitrary: st) (auto simp: Let_def split: option.splits)

text \<open>
  C1. For discovered files with distinct relative paths and a map of persisted hashes,
  \<^const>\<open>computeDiff\<close> returns whenever every discovered file can be read, and whenever it
  returns: the paths of \<open>added\<close>, \<open>modified\<close> and \<open>unchanged\<close> are pairwise disjoint and
  their union is the set of discovered paths; \<open>added\<close> and \<open>modified\<close> hold discovered
  files; \<open>removed\<close> is the set of persisted paths absent from discovery, so it shares no
  path with the discovered set; and the four lengths add up to the cardinality of the
  union of discovered and persisted paths.
\<close>

theorem computeDiff_partition:
  assumes "distinct (map relativePath discovered)"
    and "distinct (map fst existingHashes)"
  shows "((\<forall>f \<in> set discovered. readFile (absolutePath f) \<noteq> None) \<longrightarrow>
            (\<exists>d c. computeDiff hashContent readFile discovered existingHashes cache existingSizes
                      = Inr (d, c))) \<and>
         (\<forall>d c. computeDiff hashContent readFile discovered existingHashes cache existingSizes
                   = Inr (d, c) \<longrightarrow>
            set (map relativePath (added d)) \<inter> set (map relativePath (modified d)) = {} \<and>
            set (map relativePath (added d)) \<inter> set (unchanged d) = {} \<and>
            set (map relativePath (modified d)) \<inter> set (unchanged d) = {} \<and>
            set (map relativePath (added d)) \<union> set (map relativePath (modified d)) \<union>
              set (unchanged d) = set (map relativePath discovered) \<and>
            set (added d) \<subseteq> set discovered \<and> set (modified d) \<subseteq> set discovered \<and>
            set (removed d) = set (map fst existingHashes) - set (map relativePath discovered) \<and>
            set (removed d) \<inter> set (map relativePath discovered) = {} \<and>
            length (added d) + length (modified d) + length (unchanged d) + length (removed d)
              = card (set (map relativePath discovered) \<union> set (map fst existingHashes)))"
proof (intro conjI allI impI)
  assume "\<forall>f \<in> set discovered. readFile (absolutePath f) \<noteq> None"
  from computeDiff_loop_total[OF this]
  show "\<exists>d c. computeDiff hashContent readFile discovered existingHashes cache existingSizes
                 = Inr (d, c)"
    unfolding computeDiff_def
    by (metis (no_types, lifting) sum.simps(6))
next
  fix d c
  assume ret: "computeDiff hashContent readFile discovered existingHashes cache existingSizes
                 = Inr (d, c)"
  let ?st0 = "\<lparr>stAdded = [], stModified = [], stUnchanged = [], seenPaths = {},
               contentCache = cache\<rparr>"
  let ?D = "set (map relativePath discovered)"
  let ?P = "set (map fst existingHashes)"
  from ret obtain st where
    run: "computeDiff_loop hashContent readFile discovered existingHashes existingSizes ?st0 = Inr st"
    and d: "d = \<lparr>added = stAdded st, modified = stModified st,
                  removed = filter (\<lambda>existingPath. existingPath \<notin> seenPaths st)
                              (map fst existingHashes),
                  unchanged = stUnchanged st\<rparr>"
    unfolding computeDiff_def by (auto split: sum.splits)
  from computeDiff_loop_classifies[OF run]
  have ms: "mset (classifiedPaths st) = mset (map relativePath discovered)"
    and seen: "seenPaths st = ?D"
    and sub: "set (stAdded st) \<subseteq> set discovered" "set (stModified st) \<subseteq> set discovered"
    by (simp_all add: classifiedPaths_def)
  have dist: "distinct (classifiedPaths st)"
    using ms assms(1) by (metis mset_eq_imp_distinct_iff)
  have sets: "set (classifiedPaths st) = ?D"
    using ms by (metis mset_eq_setD)
  have len: "length (classifiedPaths st) = length discovered"
    using ms by (metis mset_eq_length length_map)
  have cardD: "card ?D = length discovered"
    using assms(1) by (metis distinct_card length_map)
  have rem: "set (removed d) = ?P - ?D"
    using d seen by auto
  have "distinct (removed d)"
    using d assms(2) by simp
  then have lenR: "length (removed d) = card (?P - ?D)"
    using rem by (metis distinct_card)
  have "card (?D \<union> ?P) = card ?D + card (?P - ?D)"
    by (metis List.finite_set Un_Diff_cancel card_Un_disjoint finite_Diff Diff_disjoint)
  then have total: "length (added d) + length (modified d) + length (unchanged d)
                      + length (removed d) = card (?D \<union> ?P)"
    using len lenR cardD d by (simp add: classifiedPaths_def)
  show "set (map relativePath (added d)) \<inter> set (map relativePath (modified d)) = {}"
    using dist d by (auto simp: classifiedPaths_def)
  show "set (map relativePath (added d)) \<inter> set (unchanged d) = {}"
    using dist d by (auto simp: classifiedPaths_def)
  show "set (map relativePath (modified d)) \<inter> set (unchanged d) = {}"
    using dist d by (auto simp: classifiedPaths_def)
  show "set (map relativePath (added d)) \<union> set (map relativePath (modified d)) \<union>
          set (unchanged d) = ?D"
    using sets d by (simp add: classifiedPaths_def Un_assoc)
  show "set (added d) \<subseteq> set discovered" using sub d by simp
  show "set (modified d) \<subseteq> set discovered" using sub d by simp
  show "set (removed d) = ?P - ?D" by (rule rem)
  show "set (removed d) \<inter> ?D = {}" using rem by blast
  show "length (added d) + length (modified d) + length (unchanged d) + length (removed d)
          = card (?D \<union> ?P)"
    by (rule total)
qed

theorem computeDiff_partition_witness:
  "distinct (map relativePath diffExampleFiles) \<and> distinct (map fst diffExampleHashes) \<and>
   (\<exists>d c. computeDiff (\<lambda>text. ''h1'') (\<lambda>path. Some ''x'') diffExampleFiles diffExampleHashes
             Map.empty (Some diffExampleSizes) = Inr (d, c) \<and>
          map relativePath (added d) = [''a.ts''] \<and>
          map relativePath (modified d) = [''c.ts''] \<and>
          unchanged d = [''b.ts''] \<and> removed d = [''d.ts''] \<and>
          length (added d) + length (modified d) + length (unchanged d) + length (removed d)
            = card (set (map relativePath diffExampleFiles) \<union> set (map fst diffExampleHashes)))"
proof -
  have d1: "distinct (map relativePath diffExampleFiles)"
    by (simp add: diffExampleFiles_def)
  have d2: "distinct (map fst diffExampleHashes)"
    by (simp add: diffExampleHashes_def)
  note part = computeDiff_partition[OF d1 d2, of "\<lambda>path. Some ''x''" "\<lambda>text. ''h1''" Map.empty
        "Some diffExampleSizes"]
  from part[THEN conjunct1]
  obtain d c where run: "computeDiff (\<lambda>text. ''h1'') (\<lambda>path. Some ''x'') diffExampleFiles
      diffExampleHashes Map.empty (Some diffExampleSizes) = Inr (d, c)"
    by blast
  from run have shape: "map relativePath (added d) = [''a.ts''] \<and>
      map relativePath (modified d) = [''c.ts''] \<and> unchanged d = [''b.ts''] \<and>
      removed d = [''d.ts'']"
    by (auto simp: computeDiff_def diffExampleFiles_def diffExampleHashes_def
        diffExampleSizes_def sizeChanged_def Let_def)
  from part[THEN conjunct2, rule_format, OF run]
  have total: "length (added d) + length (modified d) + length (unchanged d) + length (removed d)
      = card (set (map relativePath diffExampleFiles) \<union> set (map fst diffExampleHashes))"
    by (elim conjE)
  show ?thesis
    using d1 d2 run shape total by (intro conjI exI[of _ d] exI[of _ c]) simp_all
qed

section \<open>Properties of reciprocal rank fusion\<close>

text \<open>Changing the entry of one key in place leaves the other keys' entries and the key order.\<close>

lemma map_of_update_entry:
  "map_of (map (\<lambda>(key', entry). if key' = key then (key', v) else (key', entry)) merged) K =
     (if K = key then (case map_of merged key of None \<Rightarrow> None | Some _ \<Rightarrow> Some v)
      else map_of merged K)"
  by (induction merged) (auto split: option.splits)

lemma keys_update_entry:
  "map fst (map (\<lambda>(key', entry). if key' = key then (key', v) else (key', entry)) merged)
     = map fst merged"
  by (induction merged) auto

lemma resultKey_score_update [simp]: "resultKey (r\<lparr>score := s\<rparr>) = resultKey r"
  by (simp add: resultKey_def)

lemma rrf_ranks_invariant:
  assumes "mergedWellFormed merged"
  shows "mergedWellFormed (rrf_ranks k w rs rank merged) \<and>
         set (map fst (rrf_ranks k w rs rank merged)) = set (map fst merged) \<union> resultKey ` set rs \<and>
         mergedScoreOf (rrf_ranks k w rs rank merged) K =
           mergedScoreOf merged K +
           (\<Sum>i < length rs. if resultKey (rs ! i) = K then w / (k + real (rank + i) + 1) else 0)"
  using assms
proof (induction rs arbitrary: rank merged)
  case Nil
  then show ?case by simp
next
  case (Cons r rs)
  let ?key = "resultKey r"
  let ?rrf = "w / (k + real rank + 1)"
  let ?rest = "\<Sum>i < length rs. if resultKey (rs ! i) = K then w / (k + real (Suc rank + i) + 1) else 0"
  have split_sum:
    "(\<Sum>i < length (r # rs). if resultKey ((r # rs) ! i) = K then w / (k + real (rank + i) + 1) else 0)
       = (if ?key = K then ?rrf else 0) + ?rest"
    by (simp add: sum.lessThan_Suc_shift del: sum.lessThan_Suc cong: if_cong)
  show ?case
  proof (cases "map_of merged ?key")
    case None
    let ?merged' = "merged @ [(?key, \<lparr>mergedResult = r, mergedScore = ?rrf\<rparr>)]"
    have notin: "?key \<notin> set (map fst merged)"
      using None by (simp add: map_of_eq_None_iff)
    have wf': "mergedWellFormed ?merged'"
      using Cons.prems notin by (simp add: mergedWellFormed_def)
    have "map_of ?merged' K =
            (if K = ?key then Some \<lparr>mergedResult = r, mergedScore = ?rrf\<rparr> else map_of merged K)"
      using None by (simp add: map_add_def split: option.splits)
    then have sc: "mergedScoreOf ?merged' K = mergedScoreOf merged K + (if ?key = K then ?rrf else 0)"
      using None by (auto simp: mergedScoreOf_def)
    have unf: "rrf_ranks k w (r # rs) rank merged = rrf_ranks k w rs (Suc rank) ?merged'"
      using None by (simp add: Let_def)
    from Cons.IH[OF wf', of "Suc rank"] show ?thesis
      unfolding unf split_sum using sc by auto
  next
    case (Some existing)
    let ?e1 = "existing\<lparr>mergedScore := mergedScore existing + ?rrf\<rparr>"
    let ?e2 = "if length (content r) > length (content (mergedResult ?e1))
               then ?e1\<lparr>mergedResult := r\<lparr>score := mergedScore ?e1\<rparr>\<rparr> else ?e1"
    let ?merged' = "map (\<lambda>(key', entry). if key' = ?key then (key', ?e2) else (key', entry)) merged"
    have exkey: "resultKey (mergedResult existing) = ?key"
      using Cons.prems Some
      by (auto simp: mergedWellFormed_def list_all_iff dest!: map_of_SomeD)
    have e2key: "resultKey (mergedResult ?e2) = ?key"
      using exkey by simp
    have e2score: "mergedScore ?e2 = mergedScore existing + ?rrf"
      by simp
    have keys: "map fst ?merged' = map fst merged"
      by (rule keys_update_entry)
    have la: "list_all (\<lambda>(key, entry). resultKey (mergedResult entry) = key) ?merged'"
      using Cons.prems e2key unfolding mergedWellFormed_def list_all_iff
      by (auto split: if_splits)
    have "distinct (map fst merged)"
      using Cons.prems by (simp add: mergedWellFormed_def)
    then have wf': "mergedWellFormed ?merged'"
      unfolding mergedWellFormed_def keys using la by (rule conjI)
    have sc: "mergedScoreOf ?merged' K = mergedScoreOf merged K + (if ?key = K then ?rrf else 0)"
      unfolding mergedScoreOf_def map_of_update_entry
      using Some e2score by (auto split: option.splits)
    have inkeys: "?key \<in> set (map fst merged)"
      using Some by (metis map_of_eq_None_iff option.distinct(1) set_map)
    have unf: "rrf_ranks k w (r # rs) rank merged = rrf_ranks k w rs (Suc rank) ?merged'"
      using Some by (simp add: Let_def)
    from Cons.IH[OF wf', of "Suc rank"] show ?thesis
      unfolding unf split_sum keys using sc inkeys by auto
  qed
qed

lemma rrf_sources_invariant:
  assumes "mergedWellFormed merged"
  shows "mergedWellFormed (rrf_sources k sources merged) \<and>
         mergedScoreOf (rrf_sources k sources merged) K =
           mergedScoreOf merged K + fusedScoreOf k K sources \<and>
         set (map fst (rrf_sources k sources merged)) =
           set (map fst merged) \<union> (\<Union>src \<in> set sources. resultKey ` set (sourceResults src))"
  using assms
proof (induction sources arbitrary: merged)
  case Nil
  then show ?case by (simp add: fusedScoreOf_def)
next
  case (Cons src srcs)
  let ?m1 = "rrf_ranks k (sourceWeight src) (sourceResults src) 0 merged"
  from rrf_ranks_invariant[OF Cons.prems, of k "sourceWeight src" "sourceResults src" 0 K]
  have wf1: "mergedWellFormed ?m1"
    and keys1: "set (map fst ?m1) = set (map fst merged) \<union> resultKey ` set (sourceResults src)"
    and sc1: "mergedScoreOf ?m1 K = mergedScoreOf merged K +
        (\<Sum>rank < length (sourceResults src). keyContribution k K src rank)"
    by (simp_all add: keyContribution_def cong: if_cong)
  have fs: "fusedScoreOf k K (src # srcs) =
      (\<Sum>rank < length (sourceResults src). keyContribution k K src rank) + fusedScoreOf k K srcs"
    by (simp add: fusedScoreOf_def sum.lessThan_Suc_shift del: sum.lessThan_Suc)
  from Cons.IH[OF wf1] show ?case
    using keys1 sc1 fs by auto
qed

lemma filter_key_distinct:
  "distinct (map fst m) \<Longrightarrow>
   filter (\<lambda>p. fst p = K) m = (case map_of m K of None \<Rightarrow> [] | Some e \<Rightarrow> [(K, e)])"
proof (induction m)
  case Nil
  show ?case by simp
next
  case (Cons p m)
  obtain key e where p: "p = (key, e)" by (cases p)
  show ?case
  proof (cases "key = K")
    case True
    then have "K \<notin> fst ` set m" using Cons.prems p by auto
    then have "filter (\<lambda>p. fst p = K) m = []"
      by (auto simp: filter_empty_conv)
    then show ?thesis using True p by simp
  next
    case False
    then show ?thesis using Cons p by simp
  qed
qed

lemma reciprocalRankFusion_key:
  "map score (filter (\<lambda>x. resultKey x = K) (reciprocalRankFusion sources k)) =
     (if K \<in> (\<Union>src \<in> set sources. resultKey ` set (sourceResults src))
      then [fusedScoreOf k K sources] else [])"
proof -
  let ?m = "rrf_sources k sources []"
  let ?g = "\<lambda>entry. (mergedResult entry)\<lparr>score := mergedScore entry\<rparr>"
  have wf0: "mergedWellFormed []" by (simp add: mergedWellFormed_def)
  from rrf_sources_invariant[OF wf0, of k sources K]
  have wf: "mergedWellFormed ?m"
    and sc: "mergedScoreOf ?m K = fusedScoreOf k K sources"
    and keys: "set (map fst ?m) = (\<Union>src \<in> set sources. resultKey ` set (sourceResults src))"
    by (simp_all add: mergedScoreOf_def)
  have dist: "distinct (map fst ?m)"
    using wf by (simp add: mergedWellFormed_def)
  have bykey: "filter (\<lambda>entry. resultKey (mergedResult entry) = K) (map snd ?m)
                 = map snd (filter (\<lambda>p. fst p = K) ?m)"
    unfolding filter_map
    by (rule arg_cong[where f = "map snd"], rule filter_cong)
       (use wf in \<open>auto simp: mergedWellFormed_def list_all_iff\<close>)
  have "filter (\<lambda>x. resultKey x = K) (reciprocalRankFusion sources k)
          = map ?g (sort_key (\<lambda>entry. - mergedScore entry)
              (filter (\<lambda>entry. resultKey (mergedResult entry) = K) (map snd ?m)))"
    unfolding reciprocalRankFusion_def filter_map filter_sort
    by (simp add: comp_def)
  also have "\<dots> = map ?g (sort_key (\<lambda>entry. - mergedScore entry)
                       (map snd (case map_of ?m K of None \<Rightarrow> [] | Some e \<Rightarrow> [(K, e)])))"
    unfolding bykey filter_key_distinct[OF dist] ..
  finally have out: "map score (filter (\<lambda>x. resultKey x = K) (reciprocalRankFusion sources k))
      = (case map_of ?m K of None \<Rightarrow> [] | Some e \<Rightarrow> [mergedScore e])"
    by (simp split: option.splits)
  have "K \<in> set (map fst ?m) \<longleftrightarrow> map_of ?m K \<noteq> None"
    by (simp add: map_of_eq_None_iff)
  then show ?thesis
    using out sc keys by (auto simp: mergedScoreOf_def split: option.splits)
qed

lemma fusedScoreOf_two_occurrences:
  assumes s1: "s1 < length sources" and r1: "r1 < length (sourceResults (sources ! s1))"
    and s2: "s2 < length sources" and r2: "r2 < length (sourceResults (sources ! s2))"
    and ne: "(s1, r1) \<noteq> (s2, r2)"
    and only: "\<forall>s r. s < length sources \<and> r < length (sourceResults (sources ! s)) \<and>
                 resultKey (sourceResults (sources ! s) ! r) = K \<longrightarrow>
                 (s, r) = (s1, r1) \<or> (s, r) = (s2, r2)"
  shows "fusedScoreOf k K sources =
           keyContribution k K (sources ! s1) r1 + keyContribution k K (sources ! s2) r2"
proof -
  let ?A = "SIGMA s:{..<length sources}. {..<length (sourceResults (sources ! s))}"
  let ?c = "\<lambda>(s, r). keyContribution k K (sources ! s) r"
  have "fusedScoreOf k K sources = sum ?c ?A"
    unfolding fusedScoreOf_def by (simp add: sum.Sigma)
  also have "\<dots> = sum ?c {(s1, r1), (s2, r2)}"
  proof (rule sum.mono_neutral_right)
    show "finite ?A" by simp
    show "{(s1, r1), (s2, r2)} \<subseteq> ?A" using s1 r1 s2 r2 by auto
    show "\<forall>i \<in> ?A - {(s1, r1), (s2, r2)}. ?c i = 0"
    proof
      fix i assume i: "i \<in> ?A - {(s1, r1), (s2, r2)}"
      obtain s r where sr: "i = (s, r)" by (cases i)
      have "resultKey (sourceResults (sources ! s) ! r) \<noteq> K"
        using only i sr by blast
      then show "?c i = 0" using sr by (simp add: keyContribution_def)
    qed
  qed
  also have "\<dots> = keyContribution k K (sources ! s1) r1 + keyContribution k K (sources ! s2) r2"
    using ne by simp
  finally show ?thesis .
qed

text \<open>
  C3. With the default \<open>k = 60\<close>: if a key occurs at 0-based rank \<open>r1\<close> of a source of
  weight \<open>w1\<close> and at rank \<open>r2\<close> of a source of weight \<open>w2\<close> (two different places) and
  nowhere else, then the fused list holds exactly one result with that key, and its
  score is \<open>w1 / (60 + r1 + 1) + w2 / (60 + r2 + 1)\<close>.
\<close>

theorem reciprocalRankFusion_two_sources:
  assumes "s1 < length sources" and "r1 < length (sourceResults (sources ! s1))"
    and "s2 < length sources" and "r2 < length (sourceResults (sources ! s2))"
    and "resultKey (sourceResults (sources ! s1) ! r1) = K"
    and "resultKey (sourceResults (sources ! s2) ! r2) = K"
    and "sourceWeight (sources ! s1) = w1" and "sourceWeight (sources ! s2) = w2"
    and "(s1, r1) \<noteq> (s2, r2)"
    and "\<forall>s r. s < length sources \<and> r < length (sourceResults (sources ! s)) \<and>
           resultKey (sourceResults (sources ! s) ! r) = K \<longrightarrow>
           (s, r) = (s1, r1) \<or> (s, r) = (s2, r2)"
  shows "map score (filter (\<lambda>x. resultKey x = K) (reciprocalRankFusion_default sources))
           = [w1 / (60 + real r1 + 1) + w2 / (60 + real r2 + 1)]"
proof -
  have occurs: "K \<in> (\<Union>src \<in> set sources. resultKey ` set (sourceResults src))"
    using assms(1,2,5) by (metis UN_I imageI nth_mem)
  have "fusedScoreOf 60 K sources =
          keyContribution 60 K (sources ! s1) r1 + keyContribution 60 K (sources ! s2) r2"
    using assms(1-4,9,10) by (rule fusedScoreOf_two_occurrences)
  also have "\<dots> = w1 / (60 + real r1 + 1) + w2 / (60 + real r2 + 1)"
    using assms(5-8) by (simp add: keyContribution_def)
  finally show ?thesis
    unfolding reciprocalRankFusion_default_def reciprocalRankFusion_key
    using occurs by simp
qed

lemma rrfDoc_key:
  "resultKey (rrfDoc ''d.ts'' 1 9 body) = ''d.ts:1-9''"
  "resultKey (rrfDoc ''e.ts'' 1 4 body) = ''e.ts:1-4''"
  "resultKey (rrfDoc ''f.ts'' 2 3 body) = ''f.ts:2-3''"
  by (simp_all add: resultKey_def rrfDoc_def showInt_def showNat.simps digitChar_def)

theorem reciprocalRankFusion_two_sources_witness:
  "resultKey (sourceResults (rrfExample ! 0) ! 0) = ''d.ts:1-9'' \<and>
   resultKey (sourceResults (rrfExample ! 1) ! 2) = ''d.ts:1-9'' \<and>
   map score (filter (\<lambda>x. resultKey x = ''d.ts:1-9'') (reciprocalRankFusion_default rrfExample))
     = [0.5 / (60 + real 0 + 1) + 0.3 / (60 + real 2 + 1)]"
proof -
  have k1: "resultKey (sourceResults (rrfExample ! 0) ! 0) = ''d.ts:1-9''"
    by (simp add: rrfExample_def rrfDoc_key)
  have k2: "resultKey (sourceResults (rrfExample ! 1) ! 2) = ''d.ts:1-9''"
    by (simp add: rrfExample_def rrfDoc_key)
  have only: "\<forall>s r. s < length rrfExample \<and> r < length (sourceResults (rrfExample ! s)) \<and>
                 resultKey (sourceResults (rrfExample ! s) ! r) = ''d.ts:1-9'' \<longrightarrow>
                 (s, r) = (0, 0) \<or> (s, r) = (1, 2)"
  proof (intro allI impI)
    fix s r
    assume a: "s < length rrfExample \<and> r < length (sourceResults (rrfExample ! s)) \<and>
                 resultKey (sourceResults (rrfExample ! s) ! r) = ''d.ts:1-9''"
    then have "s = 0 \<or> s = 1 \<or> s = 2"
      by (auto simp: rrfExample_def)
    then show "(s, r) = (0, 0) \<or> (s, r) = (1, 2)"
    proof (elim disjE)
      assume s: "s = 0"
      with a have "r = 0 \<or> r = 1" by (auto simp: rrfExample_def)
      with a s show ?thesis by (auto simp: rrfExample_def rrfDoc_key)
    next
      assume s: "s = 1"
      with a have "r = 0 \<or> r = 1 \<or> r = 2" by (auto simp: rrfExample_def)
      with a s show ?thesis by (auto simp: rrfExample_def rrfDoc_key)
    next
      assume s: "s = 2"
      with a show ?thesis by (simp add: rrfExample_def)
    qed
  qed
  have "map score (filter (\<lambda>x. resultKey x = ''d.ts:1-9'') (reciprocalRankFusion_default rrfExample))
          = [sourceWeight (rrfExample ! 0) / (60 + real 0 + 1)
             + sourceWeight (rrfExample ! 1) / (60 + real 2 + 1)]"
    by (rule reciprocalRankFusion_two_sources[where ?s1.0 = 0 and ?r1.0 = 0 and ?s2.0 = 1 and ?r2.0 = 2])
       (use k1 k2 only in \<open>simp_all add: rrfExample_def\<close>)
  then show ?thesis
    using k1 k2 by (simp add: rrfExample_def)
qed

section \<open>Properties of keyword and symbol search\<close>

lemma buildFtsQuery_foo: "buildFtsQuery ''foo'' = ''foo''"
  by (simp add: buildFtsQuery_def ftsSpecial_def isJsSpace_def)

lemma those_keywordResult_scores:
  "those (map (keywordResult jsonParse sqlite) rows) = Some rs \<Longrightarrow>
   map score rs = map (\<lambda>r. keywordScore (cr_rank r)) rows"
proof (induction rows arbitrary: rs)
  case Nil
  then show ?case by simp
next
  case (Cons r rows)
  from Cons.prems obtain x xs where
    x: "keywordResult jsonParse sqlite r = Some x"
    and xs: "those (map (keywordResult jsonParse sqlite) rows) = Some xs"
    and rs: "rs = x # xs"
    by (auto split: option.splits)
  have "score x = keywordScore (cr_rank r)"
    using x by (auto simp: keywordResult_def Let_def)
  then show ?case using Cons.IH[OF xs] rs by simp
qed

text \<open>
  C9, as the code has it. The results of a keyword-mode search are in step with the rows
  of the full-text query, and the score of a row of rank \<open>r\<close> is \<open>1 / (1 + \<bar>r\<bar>)\<close> when
  \<open>r \<noteq> 0\<close> and 0 when \<open>r = 0\<close>.
\<close>

theorem keywordSearch_scores:
  "keywordSearch searchChunks jsonParse sqlite query limit = [] \<or>
   (\<exists>rows. searchChunks (buildFtsQuery query) (case limit of None \<Rightarrow> 20 | Some l \<Rightarrow> l) = Some rows \<and>
      map score (keywordSearch searchChunks jsonParse sqlite query limit) =
        map (\<lambda>r. if cr_rank r = 0 then 0 else 1 / (1 + \<bar>cr_rank r\<bar>)) rows)"
proof (cases "keywordSearch searchChunks jsonParse sqlite query limit = []")
  case True
  then show ?thesis by simp
next
  case False
  then obtain rows rs where
    rows: "searchChunks (buildFtsQuery query) (case limit of None \<Rightarrow> 20 | Some l \<Rightarrow> l) = Some rows"
    and rs: "those (map (keywordResult jsonParse sqlite) rows) = Some rs"
    and out: "keywordSearch searchChunks jsonParse sqlite query limit = rs"
    unfolding keywordSearch_def Let_def
    by (auto split: if_splits option.splits)
  have "map score rs = map (\<lambda>r. if cr_rank r = 0 then 0 else 1 / (1 + \<bar>cr_rank r\<bar>)) rows"
    using those_keywordResult_scores[OF rs] by (simp add: keywordScore_def)
  then show ?thesis using rows out by blast
qed

theorem keywordSearch_scores_witness:
  "keywordSearch rankedIndex jsonParseFails searchStore ''foo'' None \<noteq> [] \<and>
   map score (keywordSearch rankedIndex jsonParseFails searchStore ''foo'' None) = [1 / 4]"
proof -
  have ne: "keywordSearch rankedIndex jsonParseFails searchStore ''foo'' None \<noteq> []"
    by (simp add: keywordSearch_def buildFtsQuery_foo keywordResult_def rankedIndex_def
        rankedRow_def rankZeroRow_def Let_def)
  from keywordSearch_scores[of rankedIndex jsonParseFails searchStore "''foo''" None] ne
  show ?thesis
    by (auto simp: rankedIndex_def rankedRow_def rankZeroRow_def buildFtsQuery_foo)
qed

text \<open>
  C9 as stated fails: the row \<^const>\<open>rankZeroRow\<close> has rank 0, the claim gives it the score
  \<open>1 / (1 + \<bar>0\<bar>) = 1\<close>, and the guard \<^verbatim>\<open>Math.abs(r.rank) > 0\<close> gives it 0.
\<close>

theorem keywordSearch_rank_zero_counterexample:
  "cr_rank rankZeroRow = 0 \<and>
   map score (keywordSearch rankZeroIndex jsonParseFails searchStore ''foo'' None) = [0] \<and>
   1 / (1 + \<bar>cr_rank rankZeroRow\<bar>) = 1"
  by (simp add: keywordSearch_def buildFtsQuery_foo keywordResult_def keywordScore_def
      rankZeroRow_def rankZeroIndex_def Let_def)

lemma symbolSearch_scores:
  "symbolSearch searchSymbols sqlite query limit = [] \<or>
   (\<exists>rows. searchSymbols (buildFtsQuery query) (case limit of None \<Rightarrow> 20 | Some l \<Rightarrow> l) = Some rows \<and>
      map score (symbolSearch searchSymbols sqlite query limit) =
        map (\<lambda>s. sr_importance_score s + 0.1) rows)"
  unfolding symbolSearch_def Let_def
  by (auto simp: symbolResult_def Let_def split: option.splits)

text \<open>
  C8 at a symbol of importance 1: \<^verbatim>\<open>symbolSearch\<close> returns the score 1.1, where the
  claim's \<open>min (importance + 0.1) 1\<close> is 1.
\<close>

theorem symbolSearch_score_above_one:
  "sr_importance_score topSymbol = 1 \<and>
   map score (symbolSearch topSymbolIndex searchStore ''foo'' None) = [11 / 10] \<and>
   min (sr_importance_score topSymbol + 0.1) 1.0 = (1 :: real)"
  by (simp add: symbolSearch_def buildFtsQuery_foo symbolResult_def topSymbol_def
      topSymbolIndex_def Let_def)

section \<open>Properties of the ranking phase\<close>

lemma fold_map_upd:
  "fold (\<lambda>x m. m(x \<mapsto> f x)) xs m0 = (\<lambda>y. if y \<in> set xs then Some (f y) else m0 y)"
proof (induction xs arbitrary: m0)
  case Nil
  show ?case by simp
next
  case (Cons x xs)
  show ?case unfolding fold_simps Cons.IH by auto
qed

lemma addId_set: "set (addId x ids) = insert x (set ids)"
  by (auto simp: addId_def)

lemma addId_distinct: "distinct ids \<Longrightarrow> distinct (addId x ids)"
  by (simp add: addId_def)

lemma fold_addId:
  "distinct ids0 \<Longrightarrow>
   distinct (fold (\<lambda>e ids. addId (ge_target_symbol_id e) (addId (ge_source_symbol_id e) ids)) edges ids0) \<and>
   set (fold (\<lambda>e ids. addId (ge_target_symbol_id e) (addId (ge_source_symbol_id e) ids)) edges ids0)
     = set ids0 \<union> ge_source_symbol_id ` set edges \<union> ge_target_symbol_id ` set edges"
proof (induction edges arbitrary: ids0)
  case Nil
  then show ?case by simp
next
  case (Cons e edges)
  have "distinct (addId (ge_target_symbol_id e) (addId (ge_source_symbol_id e) ids0))"
    using Cons.prems by (simp add: addId_distinct)
  from Cons.IH[OF this] show ?case
    by (auto simp: addId_set)
qed

lemma collectSymbolIds_props:
  "distinct (collectSymbolIds edges)"
  "set (collectSymbolIds edges) = ge_source_symbol_id ` set edges \<union> ge_target_symbol_id ` set edges"
  using fold_addId[of "[]" edges] by (simp_all add: collectSymbolIds_def)

lemma fold_preserves:
  "P a \<Longrightarrow> (\<And>x b. P b \<Longrightarrow> P (g x b)) \<Longrightarrow> P (fold g xs a)"
  by (induction xs arbitrary: a) simp_all

lemma fold_add_nonneg:
  "(0::real) \<le> a \<Longrightarrow> (\<And>x. 0 \<le> g x) \<Longrightarrow> 0 \<le> fold (\<lambda>x acc. acc + g x) xs a"
  by (rule fold_preserves[where P = "\<lambda>b. 0 \<le> b"]) simp_all

lemma inScoreOf_nonneg:
  assumes "\<And>x. 0 \<le> getScore scores x"
  shows "0 \<le> inScoreOf outLinks scores incoming"
  unfolding inScoreOf_def
proof (rule fold_preserves[where P = "\<lambda>b. (0::real) \<le> b"])
  show "(0::real) \<le> 0" by simp
next
  fix x and b :: real
  assume "0 \<le> b"
  moreover have "0 \<le> getScore scores x / real (length (getLinks outLinks x))"
    using assms by simp
  ultimately show "0 \<le> (let outDegree = length (getLinks outLinks x) in
                         if outDegree > 0 then b + getScore scores x / real outDegree else b)"
    by (simp add: Let_def)
qed

text \<open>The invariant of the passes: no score is negative, and every node's score is positive.\<close>

lemma pagerankStep_positive:
  assumes "ids \<noteq> []" and "\<And>x. 0 \<le> getScore scores x"
  shows "(\<forall>x. 0 \<le> getScore (pagerankStep ids outLinks inLinks danglingNodes scores) x) \<and>
         (\<forall>x \<in> set ids. 0 < getScore (pagerankStep ids outLinks inLinks danglingNodes scores) x)"
proof -
  let ?N = "real (length ids)"
  let ?mass = "fold (\<lambda>symbolId mass. mass + getScore scores symbolId) danglingNodes 0"
  let ?new = "\<lambda>x. (1 - dampingFactor) / ?N +
                 dampingFactor * (inScoreOf outLinks scores (getLinks inLinks x) + ?mass / ?N)"
  have N: "0 < ?N" using assms(1) by simp
  have mass: "0 \<le> ?mass" by (rule fold_add_nonneg) (simp_all add: assms(2))
  have new: "0 < ?new x" for x
  proof -
    have "0 < (1 - dampingFactor) / ?N" using N by (simp add: dampingFactor_def)
    moreover have "0 \<le> dampingFactor * (inScoreOf outLinks scores (getLinks inLinks x) + ?mass / ?N)"
      using inScoreOf_nonneg[of scores outLinks "getLinks inLinks x"] assms(2) mass N
      by (simp add: dampingFactor_def)
    ultimately show ?thesis by linarith
  qed
  have step: "getScore (pagerankStep ids outLinks inLinks danglingNodes scores) x =
                (if x \<in> set ids then ?new x else getScore scores x)" for x
    unfolding pagerankStep_def Let_def fold_map_upd
    by (simp add: getScore_def map_add_def)
  show ?thesis
    unfolding step using new assms(2) by (auto simp: less_imp_le)
qed

lemma pagerank_iterate_positive:
  assumes "ids \<noteq> []" and "\<And>x. 0 \<le> getScore scores x" and "\<And>x. x \<in> set ids \<Longrightarrow> 0 < getScore scores x"
  shows "\<forall>x \<in> set ids. 0 < getScore ((pagerankStep ids outLinks inLinks danglingNodes ^^ n) scores) x"
proof -
  have "(\<forall>x. 0 \<le> getScore ((pagerankStep ids outLinks inLinks danglingNodes ^^ n) scores) x) \<and>
        (\<forall>x \<in> set ids. 0 < getScore ((pagerankStep ids outLinks inLinks danglingNodes ^^ n) scores) x)"
  proof (induction n)
    case 0
    show ?case using assms(2,3) by simp
  next
    case (Suc n)
    then show ?case
      using pagerankStep_positive[OF assms(1), of
          "(pagerankStep ids outLinks inLinks danglingNodes ^^ n) scores"]
      by simp
  qed
  then show ?thesis by blast
qed

lemma pagerankScores_positive:
  assumes "edges \<noteq> []"
  shows "\<forall>x \<in> set (collectSymbolIds edges). 0 < getScore (pagerankScores edges) x"
proof -
  let ?ids = "collectSymbolIds edges"
  have ne: "?ids \<noteq> []"
    using assms collectSymbolIds_props(2)[of edges] by (cases edges) auto
  let ?s0 = "fold (\<lambda>symbolId m. m(symbolId \<mapsto> 1.0 / real (length ?ids))) ?ids Map.empty"
  have s0: "getScore ?s0 x = (if x \<in> set ?ids then 1 / real (length ?ids) else 0)" for x
    unfolding fold_map_upd by (simp add: getScore_def)
  have "0 \<le> getScore ?s0 x" for x unfolding s0 by simp
  moreover have "0 < getScore ?s0 x" if "x \<in> set ?ids" for x
    unfolding s0 using that ne by simp
  ultimately show ?thesis
    unfolding pagerankScores_def Let_def
    by (auto split: prod.splits intro!: pagerank_iterate_positive[OF ne, rule_format])
qed

lemma fold_max_props:
  fixes f :: "'a \<Rightarrow> real"
  defines "m \<equiv> \<lambda>xs m0. fold (\<lambda>x m. if f x > m then f x else m) xs m0"
  shows "m0 \<le> m xs m0 \<and> (\<forall>x \<in> set xs. f x \<le> m xs m0) \<and>
         (m xs m0 = m0 \<or> (\<exists>x \<in> set xs. f x = m xs m0))"
proof (induction xs arbitrary: m0)
  case Nil
  show ?case by (simp add: m_def)
next
  case (Cons x xs)
  let ?m1 = "if f x > m0 then f x else m0"
  have unf: "m (x # xs) m0 = m xs ?m1" by (simp add: m_def)
  from Cons.IH[of ?m1] show ?case
    unfolding unf by (auto split: if_splits)
qed

lemma updateSymbolImportanceBatch_rows:
  "distinct (map fst ups) \<Longrightarrow>
   symbolRows (updateSymbolImportanceBatch sqlite ups) =
     map (\<lambda>s. case map_of ups (sr_id s) of None \<Rightarrow> s
              | Some v \<Rightarrow> s\<lparr>sr_importance_score := v\<rparr>) (symbolRows sqlite)"
proof (induction ups arbitrary: sqlite)
  case Nil
  show ?case by simp
next
  case (Cons u ups)
  obtain i v where u: "u = (i, v)" by (cases u)
  have notin: "map_of ups i = None"
    using Cons.prems u by (simp add: map_of_eq_None_iff)
  have d: "distinct (map fst ups)" using Cons.prems by simp
  show ?case
    unfolding u updateSymbolImportanceBatch.simps Cons.IH[OF d]
    using notin by (auto simp: updateSymbolImportance_def split: option.splits)
qed

lemma map_of_graph:
  "map_of (map (\<lambda>x. (x, g x)) xs) i = (if i \<in> set xs then Some (g i) else None)"
  by (induction xs) auto

text \<open>
  C7, as the code has it. Without edges the ranking phase changes nothing. With at
  least one edge, all edges between stored symbols, and stored scores in \<open>[0, 1]\<close>
  (symbols are inserted with score 0), every importance score lies in \<open>[0, 1]\<close>
  afterwards and at least one equals 1.
\<close>

theorem rankSymbols_normalised:
  "(graph_edges sqlite = [] \<longrightarrow> rankSymbols sqlite = sqlite) \<and>
   (graph_edges sqlite \<noteq> [] \<and>
    (\<forall>e \<in> set (graph_edges sqlite).
        ge_source_symbol_id e \<in> sr_id ` set (symbolRows sqlite) \<and>
        ge_target_symbol_id e \<in> sr_id ` set (symbolRows sqlite)) \<and>
    (\<forall>s \<in> set (symbolRows sqlite). 0 \<le> sr_importance_score s \<and> sr_importance_score s \<le> 1) \<longrightarrow>
    (\<forall>s \<in> set (symbolRows (rankSymbols sqlite)).
        0 \<le> sr_importance_score s \<and> sr_importance_score s \<le> 1) \<and>
    (\<exists>s \<in> set (symbolRows (rankSymbols sqlite)). sr_importance_score s = 1))"
proof (intro conjI impI)
  assume "graph_edges sqlite = []"
  then show "rankSymbols sqlite = sqlite"
    by (simp add: rankSymbols_def getAllEdges_def)
next
  assume a: "graph_edges sqlite \<noteq> [] \<and>
    (\<forall>e \<in> set (graph_edges sqlite).
        ge_source_symbol_id e \<in> sr_id ` set (symbolRows sqlite) \<and>
        ge_target_symbol_id e \<in> sr_id ` set (symbolRows sqlite)) \<and>
    (\<forall>s \<in> set (symbolRows sqlite). 0 \<le> sr_importance_score s \<and> sr_importance_score s \<le> 1)"
  let ?edges = "graph_edges sqlite"
  let ?ids = "collectSymbolIds ?edges"
  let ?sc = "\<lambda>x. getScore (pagerankScores ?edges) x"
  let ?max = "fold (\<lambda>symbolId m. if ?sc symbolId > m then ?sc symbolId else m) ?ids 0"
  let ?ups = "map (\<lambda>symbolId. (symbolId, ?sc symbolId / ?max)) ?ids"
  from a have edges: "?edges \<noteq> []" by simp
  have dist: "distinct ?ids" by (rule collectSymbolIds_props)
  have idset: "set ?ids = ge_source_symbol_id ` set ?edges \<union> ge_target_symbol_id ` set ?edges"
    by (rule collectSymbolIds_props)
  have ne: "?ids \<noteq> []" using edges idset by (cases ?edges) auto
  have pos: "\<forall>x \<in> set ?ids. 0 < ?sc x" by (rule pagerankScores_positive[OF edges])
  from fold_max_props[of 0 ?sc ?ids]
  have max_ub: "\<forall>x \<in> set ?ids. ?sc x \<le> ?max"
    and max_at: "?max = 0 \<or> (\<exists>x \<in> set ?ids. ?sc x = ?max)"
    by blast+
  obtain x0 where x0: "x0 \<in> set ?ids" using ne by (cases ?ids) auto
  have maxpos: "0 < ?max" using pos max_ub x0 by (meson less_le_trans)
  then obtain top where top: "top \<in> set ?ids" "?sc top = ?max"
    using max_at by auto
  have run: "rankSymbols sqlite = updateSymbolImportanceBatch sqlite ?ups"
    using edges ne maxpos by (simp add: rankSymbols_def getAllEdges_def Let_def)
  have dups: "distinct (map fst ?ups)" using dist by (simp add: comp_def)
  have look: "map_of ?ups i = (if i \<in> set ?ids then Some (?sc i / ?max) else None)" for i
    by (rule map_of_graph)
  have rows: "symbolRows (rankSymbols sqlite) =
      map (\<lambda>s. if sr_id s \<in> set ?ids then s\<lparr>sr_importance_score := ?sc (sr_id s) / ?max\<rparr> else s)
        (symbolRows sqlite)"
    unfolding run updateSymbolImportanceBatch_rows[OF dups] look by simp
  have range: "0 \<le> ?sc i / ?max \<and> ?sc i / ?max \<le> 1" if "i \<in> set ?ids" for i
    using pos max_ub maxpos that by (simp add: less_imp_le)
  show "\<forall>s \<in> set (symbolRows (rankSymbols sqlite)).
          0 \<le> sr_importance_score s \<and> sr_importance_score s \<le> 1"
    unfolding rows using a range by auto
  have "top \<in> sr_id ` set (symbolRows sqlite)"
    using top(1) a idset by auto
  then obtain s where s: "s \<in> set (symbolRows sqlite)" "sr_id s = top" by auto
  have "s\<lparr>sr_importance_score := ?sc top / ?max\<rparr> \<in> set (symbolRows (rankSymbols sqlite))"
    unfolding rows using s top(1) by (auto simp: image_iff intro!: bexI[of _ s])
  moreover have "?sc top / ?max = 1" using top(2) maxpos by simp
  ultimately show "\<exists>s \<in> set (symbolRows (rankSymbols sqlite)). sr_importance_score s = 1"
    by (intro bexI[of _ "s\<lparr>sr_importance_score := ?sc top / ?max\<rparr>"]) simp_all
qed

text \<open>
  C7 as stated fails on a store without edges: the ranking phase returns at once, the
  only symbol keeps the score 0 it was inserted with, and no score equals 1.
\<close>

theorem rankSymbols_no_edges_counterexample:
  "map sr_importance_score (symbolRows (rankSymbols loneSymbolStore)) = [0]"
  by (simp add: rankSymbols_def getAllEdges_def loneSymbolStore_def searchStore_def)

theorem rankSymbols_normalised_witness:
  "graph_edges twoSymbolStore \<noteq> [] \<and>
   list_all (\<lambda>s. 0 \<le> sr_importance_score s \<and> sr_importance_score s \<le> 1)
     (symbolRows (rankSymbols twoSymbolStore)) \<and>
   list_ex (\<lambda>s. sr_importance_score s = 1) (symbolRows (rankSymbols twoSymbolStore))"
proof -
  have h: "graph_edges twoSymbolStore \<noteq> [] \<and>
    (\<forall>e \<in> set (graph_edges twoSymbolStore).
        ge_source_symbol_id e \<in> sr_id ` set (symbolRows twoSymbolStore) \<and>
        ge_target_symbol_id e \<in> sr_id ` set (symbolRows twoSymbolStore)) \<and>
    (\<forall>s \<in> set (symbolRows twoSymbolStore).
        0 \<le> sr_importance_score s \<and> sr_importance_score s \<le> 1)"
    by (simp add: twoSymbolStore_def searchStore_def topSymbol_def)
  from rankSymbols_normalised[of twoSymbolStore, THEN conjunct2, rule_format, OF h]
  show ?thesis
    using h by (simp add: list_all_iff list_ex_iff)
qed

section \<open>The pipeline on an empty repository\<close>

lemma computeDiff_nothing_discovered:
  "computeDiff hashContent readFile [] existingHashes cache existingSizes =
     Inr (\<lparr>added = [], modified = [], removed = map fst existingHashes, unchanged = []\<rparr>, cache)"
  by (simp add: computeDiff_def)

lemma deleteFilesByPaths_all:
  "files (deleteFilesByPaths store (map fr_path (files store))) = []"
  by (auto simp: deleteFilesByPaths_def Let_def filter_empty_conv)

lemma diffPhase_nothing_discovered:
  "\<exists>dp. diffPhase hashContent readFile [] project options = Inr dp \<and>
     filesToProcess dp = [] \<and>
     files (projectSqlite (dpProject dp)) = [] \<and>
     index_state (projectSqlite (dpProject dp)) =
       (if optFull options then Map.empty else index_state (projectSqlite project)) \<and>
     removedPaths dp = (if optFull options then [] else map fr_path (files (projectSqlite project))) \<and>
     unchangedCount dp = 0"
proof (cases "optFull options")
  case True
  then show ?thesis by (simp add: diffPhase_def clearAllData_def)
next
  case False
  let ?paths = "map fr_path (files (projectSqlite project))"
  have hashes: "map fst (getFileHashes (projectSqlite project)) = ?paths"
    by (simp add: getFileHashes_def comp_def)
  show ?thesis
  proof (cases "files (projectSqlite project) = []")
    case True
    then show ?thesis
      using False by (simp add: diffPhase_def computeDiff_nothing_discovered hashes)
  next
    case nonempty: False
    have "files (deleteFilesByPaths (projectSqlite project) ?paths) = []"
      by (rule deleteFilesByPaths_all)
    moreover have "index_state (deleteFilesByPaths (projectSqlite project) ?paths) = index_state (projectSqlite project)"
      by (simp add: deleteFilesByPaths_def Let_def)
    ultimately show ?thesis
      using False nonempty
      by (simp add: diffPhase_def computeDiff_nothing_discovered hashes)
  qed
qed

text \<open>
  C5, as the code has it. A run that is not a dry run, on a repository where discovery
  finds nothing, returns before the later phases and before the state entries are
  written: it leaves no file record in the store (so \<^verbatim>\<open>getStats().totalFiles\<close> is 0),
  reports no added or modified file, no symbol, chunk or embedding, and leaves the state
  table as it was (an incremental run) or cleared (a full run). \<^verbatim>\<open>last_indexed\<close> is set
  afterwards only if it was set before an incremental run.
\<close>

theorem runIndexingPipeline_empty_repository:
  assumes "\<not> optDryRun options"
  shows "\<exists>project' result.
     runIndexingPipeline hashContent readFile laterPhases now [] project options
       = Inr (project', result) \<and>
     files (projectSqlite project') = [] \<and> statsTotalFiles (projectSqlite project') = 0 \<and>
     filesAdded result = 0 \<and> filesModified result = 0 \<and> filesUnchanged result = 0 \<and>
     filesRemoved result = (if optFull options then 0 else length (files (projectSqlite project))) \<and>
     totalSymbols result = 0 \<and> totalChunks result = 0 \<and> totalEmbeddings result = 0 \<and>
     index_state (projectSqlite project') =
       (if optFull options then Map.empty else index_state (projectSqlite project)) \<and>
     getState (projectSqlite project') ''last_indexed'' =
       (if optFull options then None else getState (projectSqlite project) ''last_indexed'')"
proof -
  from diffPhase_nothing_discovered[of hashContent readFile project options]
  obtain dp where dp: "diffPhase hashContent readFile [] project options = Inr dp"
    "filesToProcess dp = []" "files (projectSqlite (dpProject dp)) = []"
    "index_state (projectSqlite (dpProject dp)) =
       (if optFull options then Map.empty else index_state (projectSqlite project))"
    "removedPaths dp = (if optFull options then [] else map fr_path (files (projectSqlite project)))"
    "unchangedCount dp = 0"
    by blast
  have "runIndexingPipeline hashContent readFile laterPhases now [] project options =
          Inr (dpProject dp,
               \<lparr>filesAdded = 0, filesModified = 0, filesRemoved = length (removedPaths dp),
                filesUnchanged = unchangedCount dp, totalSymbols = 0, totalChunks = 0,
                totalEmbeddings = 0\<rparr>)"
    using assms dp(1,2) by (simp add: runIndexingPipeline_def)
  then show ?thesis
    using dp(3-6) by (simp add: statsTotalFiles_def getState_def)
qed

text \<open>
  C5 as stated fails: on a freshly initialised project the run returns with
  \<^verbatim>\<open>last_indexed\<close> still unset.
\<close>

theorem runIndexingPipeline_empty_repository_counterexample:
  "runIndexingPipeline plainHash nothingReadable idlePhases someInstant []
     freshProject plainRun
     = Inr (freshProject,
            \<lparr>filesAdded = 0, filesModified = 0, filesRemoved = 0, filesUnchanged = 0,
             totalSymbols = 0, totalChunks = 0, totalEmbeddings = 0\<rparr>) \<and>
   getState (projectSqlite freshProject) ''last_indexed'' = None"
  by (simp add: runIndexingPipeline_def diffPhase_def computeDiff_def getFileHashes_def
      getFileSizes_def freshProject_def plainRun_def getState_def)

theorem runIndexingPipeline_empty_repository_witness:
  "\<not> optDryRun plainRun \<and>
   (\<exists>project' result.
     runIndexingPipeline plainHash nothingReadable idlePhases someInstant []
       freshProject plainRun = Inr (project', result) \<and>
     files (projectSqlite project') = [] \<and> filesAdded result = 0 \<and>
     getState (projectSqlite project') ''last_indexed'' = None)"
proof -
  have h: "\<not> optDryRun plainRun" by (simp add: plainRun_def)
  from runIndexingPipeline_empty_repository[OF h, of plainHash nothingReadable idlePhases
      someInstant freshProject]
  obtain project' result where
    "runIndexingPipeline plainHash nothingReadable idlePhases someInstant []
       freshProject plainRun = Inr (project', result)"
    "files (projectSqlite project') = []" "filesAdded result = 0"
    "getState (projectSqlite project') ''last_indexed'' =
       (if optFull plainRun then None else getState (projectSqlite freshProject) ''last_indexed'')"
    by blast
  then show ?thesis
    using h by (intro conjI exI[of _ project'] exI[of _ result])
      (simp_all add: plainRun_def freshProject_def getState_def)
qed

section \<open>Properties of the chunker\<close>

subsection \<open>Lines, slices and trimming\<close>

lemma splitLines_nonempty: "splitLines s \<noteq> []"
  by (induction s) (auto split: list.splits)

lemma splitLines_no_newline: "l \<in> set (splitLines s) \<Longrightarrow> CHR ''\<newline>'' \<notin> set l"
proof (induction s arbitrary: l)
  case Nil
  then show ?case by simp
next
  case (Cons c cs)
  show ?case
  proof (cases "c = CHR ''\<newline>''")
    case True
    then show ?thesis using Cons by auto
  next
    case False
    obtain x xs where sp: "splitLines cs = x # xs"
      using splitLines_nonempty[of cs] by (cases "splitLines cs") auto
    then have "l = c # x \<or> l \<in> set xs"
      using Cons.prems False by simp
    then show ?thesis
      using Cons.IH sp False by auto
  qed
qed

lemma splitLines_single: "CHR ''\<newline>'' \<notin> set l \<Longrightarrow> splitLines l = [l]"
  by (induction l) auto

lemma splitLines_line_then:
  "CHR ''\<newline>'' \<notin> set l \<Longrightarrow> splitLines (l @ CHR ''\<newline>'' # rest) = l # splitLines rest"
  by (induction l) auto

lemma splitLines_joinWith:
  "ls \<noteq> [] \<Longrightarrow> \<forall>l \<in> set ls. CHR ''\<newline>'' \<notin> set l \<Longrightarrow>
   splitLines (joinWith ''\<newline>'' ls) = ls"
proof (induction "''\<newline>''" ls rule: joinWith.induct)
  case 1
  then show ?case by simp
next
  case (2 x)
  then show ?case by (simp add: splitLines_single)
next
  case (3 x y ys)
  then show ?case by (simp add: splitLines_line_then)
qed

lemma set_joinWith: "l \<in> set ls \<Longrightarrow> set l \<subseteq> set (joinWith sep ls)"
  by (induction sep ls rule: joinWith.induct) auto

lemma jsTrim_nonempty_iff: "jsTrim s \<noteq> [] \<longleftrightarrow> (\<exists>c \<in> set s. \<not> isJsSpace c)"
proof
  assume "jsTrim s \<noteq> []"
  then obtain c where "c \<in> set (dropWhile isJsSpace s)" "\<not> isJsSpace c"
    by (auto simp: jsTrim_def dropWhile_eq_Nil_conv)
  then show "\<exists>c \<in> set s. \<not> isJsSpace c"
    using set_dropWhileD by fast
next
  assume "\<exists>c \<in> set s. \<not> isJsSpace c"
  then have ne: "dropWhile isJsSpace s \<noteq> []"
    by (simp add: dropWhile_eq_Nil_conv)
  then have "\<not> isJsSpace (hd (dropWhile isJsSpace s))"
    by (rule hd_dropWhile)
  moreover have "hd (dropWhile isJsSpace s) \<in> set (rev (dropWhile isJsSpace s))"
    using ne by simp
  ultimately have "dropWhile isJsSpace (rev (dropWhile isJsSpace s)) \<noteq> []"
    by (metis dropWhile_eq_Nil_conv)
  then show "jsTrim s \<noteq> []"
    by (simp add: jsTrim_def)
qed

lemma jsSlice_range:
  "0 \<le> a \<Longrightarrow> a \<le> b \<Longrightarrow> b \<le> int (length xs) \<Longrightarrow>
   jsSlice xs a (Some b) = take (nat (b - a)) (drop (nat a) xs)"
  by (simp add: jsSlice_def Let_def min_def)

lemma jsSlice_to_end:
  "0 \<le> a \<Longrightarrow> a \<le> int (length xs) \<Longrightarrow>
   jsSlice xs a None = jsSlice xs a (Some (int (length xs)))"
  by (simp add: jsSlice_def Let_def)

lemma jsSlice_range_length:
  "0 \<le> a \<Longrightarrow> a \<le> b \<Longrightarrow> b \<le> int (length xs) \<Longrightarrow>
   length (jsSlice xs a (Some b)) = nat (b - a)"
  by (simp add: jsSlice_range)

lemma jsSlice_range_member:
  assumes "0 \<le> a" "a \<le> b" "b \<le> int (length xs)" "a \<le> i" "i < b"
  shows "xs ! nat i \<in> set (jsSlice xs a (Some b))"
proof -
  let ?j = "nat (i - a)"
  have j: "?j < nat (b - a)" using assms by linarith
  have len: "?j < length (take (nat (b - a)) (drop (nat a) xs))"
    using assms by simp
  have "take (nat (b - a)) (drop (nat a) xs) ! ?j = drop (nat a) xs ! ?j"
    using j by (rule nth_take)
  also have "\<dots> = xs ! (nat a + ?j)"
    using assms by (intro nth_drop) linarith
  also have "nat a + ?j = nat i"
    using assms by linarith
  finally have "take (nat (b - a)) (drop (nat a) xs) ! ?j = xs ! nat i" .
  then show ?thesis
    unfolding jsSlice_range[OF assms(1-3)] using len by (metis nth_mem)
qed

lemma jsSlice_subset: "set (jsSlice xs a b) \<subseteq> set xs"
  unfolding jsSlice_def Let_def
  by (meson set_take_subset set_drop_subset subset_trans)

lemma lineCovered_append: "lineCovered (xs @ ys) n \<longleftrightarrow> lineCovered xs n \<or> lineCovered ys n"
  by (auto simp: lineCovered_def)

lemma lineCovered_Cons:
  "lineCovered (c # cs) n \<longleftrightarrow> (chunkStartLine c \<le> n \<and> n \<le> chunkEndLine c) \<or> lineCovered cs n"
  by (auto simp: lineCovered_def)

subsection \<open>Line slicing covers its region and numbers its chunks in order\<close>

lemma splitRegion_loop_covers:
  "lineStart \<le> length regionLines \<Longrightarrow>
   \<exists>new. splitRegion_loop region path maxTokens regionLines lineStart chunkIdx chunks = chunks @ new \<and>
     map chunkIndex new = map (\<lambda>i. chunkIdx + int i) [0..<length new] \<and>
     (\<forall>n. regionStartLine region + int lineStart \<le> n \<and>
          n < regionStartLine region + int (length regionLines) \<longrightarrow> lineCovered new n)"
proof (induction region path maxTokens regionLines lineStart chunkIdx chunks
    rule: splitRegion_loop.induct)
  case (1 region path maxTokens regionLines lineStart chunkIdx chunks)
  show ?case
  proof (cases "lineStart < length regionLines")
    case False
    then have "splitRegion_loop region path maxTokens regionLines lineStart chunkIdx chunks = chunks"
      by (subst splitRegion_loop.simps) simp
    moreover have "lineStart = length regionLines"
      using False "1.prems" by simp
    ultimately show ?thesis
      by (intro exI[of _ "[]"]) auto
  next
    case True
    obtain lineEnd currentText where
      acc: "accumulateLines regionLines maxTokens lineStart lineStart [] = (lineEnd, currentText)"
      by (cases "accumulateLines regionLines maxTokens lineStart lineStart []")
    have bounds: "lineStart < lineEnd" "lineEnd \<le> length regionLines"
      using accumulateLines_bounds[of lineStart regionLines maxTokens lineStart "[]"] acc True
      by simp_all
    let ?a = "regionStartLine region + int lineStart"
    let ?b = "regionStartLine region + int lineEnd - 1"
    let ?text = "buildChunkContent path currentText ?a ?b (regionSymbolNames region)"
    let ?c = "\<lparr>chunkIndex = chunkIdx, chunkContent = ?text, chunkStartLine = ?a,
               chunkEndLine = ?b, containedSymbolNames = regionSymbolNames region,
               tokenCount = estimateTokens ?text\<rparr>"
    have unf: "splitRegion_loop region path maxTokens regionLines lineStart chunkIdx chunks =
        splitRegion_loop region path maxTokens regionLines lineEnd (chunkIdx + 1) (chunks @ [?c])"
      using True acc by (subst splitRegion_loop.simps) (simp add: Let_def)
    from "1.IH"[OF True acc[symmetric] refl refl refl refl bounds(2)]
    obtain new where
      eq: "splitRegion_loop region path maxTokens regionLines lineEnd (chunkIdx + 1) (chunks @ [?c])
             = (chunks @ [?c]) @ new"
      and idx: "map chunkIndex new = map (\<lambda>i. chunkIdx + 1 + int i) [0..<length new]"
      and cov: "\<forall>n. regionStartLine region + int lineEnd \<le> n \<and>
                  n < regionStartLine region + int (length regionLines) \<longrightarrow> lineCovered new n"
      by blast
    have idx': "map chunkIndex (?c # new) = map (\<lambda>i. chunkIdx + int i) [0..<length (?c # new)]"
    proof -
      have "[0..<length (?c # new)] = 0 # map Suc [0..<length new]"
        by (simp add: upt_conv_Cons map_Suc_upt del: upt_Suc)
      then show ?thesis
        using idx by (simp add: comp_def add.assoc)
    qed
    have cov': "lineCovered (?c # new) n"
      if "regionStartLine region + int lineStart \<le> n"
        "n < regionStartLine region + int (length regionLines)" for n
    proof (cases "n \<le> ?b")
      case True
      then show ?thesis using that by (simp add: lineCovered_Cons)
    next
      case False
      then have "regionStartLine region + int lineEnd \<le> n" by simp
      then show ?thesis using cov that by (simp add: lineCovered_Cons)
    qed
    show ?thesis
      unfolding unf eq using idx' cov' by (intro exI[of _ "?c # new"]) auto
  qed
qed

lemma chunkByLines_loop_as_region:
  "chunkByLines_loop path maxTokens ls lineStart chunkIdx chunks =
     splitRegion_loop \<lparr>regionStartLine = 1, regionEndLine = e, regionText = t,
                        regionSymbolNames = [], isSymbol = False\<rparr>
       path maxTokens ls lineStart chunkIdx chunks"
proof (induction path maxTokens ls lineStart chunkIdx chunks rule: chunkByLines_loop.induct)
  case (1 path maxTokens ls lineStart chunkIdx chunks)
  show ?case
  proof (cases "lineStart < length ls")
    case False
    then show ?thesis
      by (subst chunkByLines_loop.simps, subst splitRegion_loop.simps) simp
  next
    case True
    obtain lineEnd currentText where
      acc: "accumulateLines ls maxTokens lineStart lineStart [] = (lineEnd, currentText)"
      by (cases "accumulateLines ls maxTokens lineStart lineStart []")
    show ?thesis
      using True acc "1.IH"[OF True acc[symmetric] refl]
      by (subst chunkByLines_loop.simps, subst splitRegion_loop.simps)
         (simp add: Let_def add.commute)
  qed
qed

subsection \<open>The regions hold every line that is not blank\<close>

lemma regionsCover_append:
  "regionsCover (xs @ ys) n \<longleftrightarrow> regionsCover xs n \<or> regionsCover ys n"
  by (auto simp: regionsCover_def)

lemma nonblank_slice_text:
  assumes "0 \<le> a" "a \<le> b" "b \<le> int (length lines)" "a \<le> i" "i < b"
    and "\<not> blankLine (lines ! nat i)"
  shows "length (jsTrim (joinWith ''\<newline>'' (jsSlice lines a (Some b)))) > 0"
proof -
  from assms(6) obtain c where c: "c \<in> set (lines ! nat i)" "\<not> isJsSpace c"
    unfolding blankLine_def using jsTrim_nonempty_iff by blast
  have "lines ! nat i \<in> set (jsSlice lines a (Some b))"
    using assms(1-5) by (rule jsSlice_range_member)
  then have "c \<in> set (joinWith ''\<newline>'' (jsSlice lines a (Some b)))"
    using c(1) set_joinWith by blast
  then have "jsTrim (joinWith ''\<newline>'' (jsSlice lines a (Some b))) \<noteq> []"
    using c(2) jsTrim_nonempty_iff by blast
  then show ?thesis by simp
qed

lemma buildRegions_invariant:
  assumes "\<forall>s \<in> set todo. 1 \<le> symStartLine s \<and> symStartLine s \<le> symEndLine s \<and>
             symEndLine s \<le> int (length lines)"
    and "1 \<le> currentLine"
    and "\<forall>r \<in> set regions. regionWellFormed lines r"
  shows "currentLine \<le> fst (buildRegions lines allSymbols todo currentLine regions) \<and>
         (\<forall>r \<in> set (snd (buildRegions lines allSymbols todo currentLine regions)).
            regionWellFormed lines r) \<and>
         (\<forall>n. regionsCover regions n \<longrightarrow>
            regionsCover (snd (buildRegions lines allSymbols todo currentLine regions)) n) \<and>
         (\<forall>n. currentLine \<le> n \<and>
              n < fst (buildRegions lines allSymbols todo currentLine regions) \<and>
              n \<le> int (length lines) \<and> \<not> blankLine (lines ! nat (n - 1)) \<longrightarrow>
            regionsCover (snd (buildRegions lines allSymbols todo currentLine regions)) n)"
  using assms
proof (induction todo arbitrary: currentLine regions)
  case Nil
  then show ?case by auto
next
  case (Cons symb rest)
  have rest: "\<forall>s \<in> set rest. 1 \<le> symStartLine s \<and> symStartLine s \<le> symEndLine s \<and>
                symEndLine s \<le> int (length lines)"
    using Cons.prems(1) by simp
  have sy: "1 \<le> symStartLine symb" "symStartLine symb \<le> symEndLine symb"
    "symEndLine symb \<le> int (length lines)"
    using Cons.prems(1) by simp_all
  show ?case
  proof (cases "symStartLine symb < currentLine")
    case True
    then have unf: "buildRegions lines allSymbols (symb # rest) currentLine regions =
                      buildRegions lines allSymbols rest currentLine regions"
      by simp
    show ?thesis
      unfolding unf using Cons.IH[OF rest Cons.prems(2,3)] .
  next
    case False
    let ?gapText = "joinWith ''\<newline>''
                      (jsSlice lines (currentLine - 1) (Some (symStartLine symb - 1)))"
    let ?gap = "\<lparr>regionStartLine = currentLine, regionEndLine = symStartLine symb - 1,
                  regionText = ?gapText, regionSymbolNames = [], isSymbol = False\<rparr>"
    let ?regions1 = "if symStartLine symb > currentLine \<and> length (jsTrim ?gapText) > 0
                     then regions @ [?gap] else regions"
    let ?symRegion = "\<lparr>regionStartLine = symStartLine symb, regionEndLine = symEndLine symb,
        regionText = joinWith ''\<newline>''
                       (jsSlice lines (symStartLine symb - 1) (Some (symEndLine symb))),
        regionSymbolNames = symName symb #
          map symName (filter (\<lambda>s. parentName s = Some (symName symb)) allSymbols),
        isSymbol = True\<rparr>"
    let ?regions2 = "?regions1 @ [?symRegion]"
    have unf: "buildRegions lines allSymbols (symb # rest) currentLine regions =
                 buildRegions lines allSymbols rest (symEndLine symb + 1) ?regions2"
      using False by (simp add: Let_def)
    have gapwf: "regionWellFormed lines ?gap" if "symStartLine symb > currentLine"
      using that Cons.prems(2) sy by (simp add: regionWellFormed_def)
    have symwf: "regionWellFormed lines ?symRegion"
      using sy by (simp add: regionWellFormed_def)
    have wf2: "\<forall>r \<in> set ?regions2. regionWellFormed lines r"
      using Cons.prems(3) gapwf symwf by auto
    have next1: "1 \<le> symEndLine symb + 1" using sy by simp
    note IH = Cons.IH[OF rest next1 wf2]
    let ?out = "buildRegions lines allSymbols rest (symEndLine symb + 1) ?regions2"
    have keep2: "regionsCover ?regions2 n \<Longrightarrow> regionsCover (snd ?out) n" for n
      using IH by blast
    have keep: "regionsCover regions n \<Longrightarrow> regionsCover ?regions2 n" for n
      unfolding regionsCover_append[of ?regions1]
      by (cases "symStartLine symb > currentLine \<and> length (jsTrim ?gapText) > 0")
         (simp_all add: regionsCover_append)
    have here: "regionsCover ?regions2 n"
      if n: "currentLine \<le> n" "n \<le> symEndLine symb" "\<not> blankLine (lines ! nat (n - 1))" for n
    proof (cases "symStartLine symb \<le> n")
      case True
      then have "regionsCover [?symRegion] n"
        using n(2) by (simp add: regionsCover_def)
      then show ?thesis
        unfolding regionsCover_append[of ?regions1] by (rule disjI2)
    next
      case before: False
      then have gt: "symStartLine symb > currentLine" using n(1) by simp
      have "length (jsTrim ?gapText) > 0"
        using Cons.prems(2) gt sy before n
        by (intro nonblank_slice_text[where i = "n - 1"]) simp_all
      then have r1: "?regions1 = regions @ [?gap]" using gt by simp
      have "regionsCover [?gap] n"
        using n(1) before by (simp add: regionsCover_def)
      then have "regionsCover (regions @ [?gap]) n"
        unfolding regionsCover_append by (rule disjI2)
      then have "regionsCover ?regions1 n"
        unfolding r1 .
      then show ?thesis
        unfolding regionsCover_append[of ?regions1] by (rule disjI1)
    qed
    have c1: "currentLine \<le> fst ?out"
      using IH False sy by linarith
    have c4: "regionsCover (snd ?out) n"
      if "currentLine \<le> n" "n < fst ?out" "n \<le> int (length lines)"
        "\<not> blankLine (lines ! nat (n - 1))" for n
    proof (cases "n \<le> symEndLine symb")
      case True
      then show ?thesis using here that keep2 by blast
    next
      case False
      then have "symEndLine symb + 1 \<le> n" by simp
      then show ?thesis using IH that by blast
    qed
    show ?thesis
      unfolding unf using c1 IH keep keep2 c4 by blast
  qed
qed

subsection \<open>From regions to chunks\<close>

lemma chunkIndex_append:
  assumes "map chunkIndex xs = map (\<lambda>i. k + int i) [0..<length xs]"
    and "map chunkIndex ys = map (\<lambda>i. k + int (length xs) + int i) [0..<length ys]"
  shows "map chunkIndex (xs @ ys) = map (\<lambda>i. k + int i) [0..<length (xs @ ys)]"
proof -
  have "[0..<length xs + length ys] = [0..<length xs] @ [length xs..<length xs + length ys]"
    by (rule upt_add_eq_append) simp
  moreover have "[length xs..<length xs + length ys] = map (\<lambda>i. i + length xs) [0..<length ys]"
    unfolding map_add_upt by (simp add: add.commute)
  ultimately have upt: "[0..<length xs + length ys] =
      [0..<length xs] @ map (\<lambda>i. i + length xs) [0..<length ys]"
    by simp
  have "map (\<lambda>i. k + int i) (map (\<lambda>i. i + length xs) [0..<length ys])
          = map (\<lambda>i. k + int (length xs) + int i) [0..<length ys]"
    by (rule nth_equalityI) simp_all
  then have "map (\<lambda>i. k + int i) [0..<length xs + length ys]
          = map chunkIndex xs @ map chunkIndex ys"
    unfolding upt map_append assms by simp
  then show ?thesis by simp
qed

lemma region_lines:
  assumes "regionWellFormed lines r" and "\<forall>l \<in> set lines. CHR ''\<newline>'' \<notin> set l"
  shows "int (length (splitLines (regionText r))) = regionEndLine r - regionStartLine r + 1"
proof -
  let ?slice = "jsSlice lines (regionStartLine r - 1) (Some (regionEndLine r))"
  have b: "0 \<le> regionStartLine r - 1" "regionStartLine r - 1 \<le> regionEndLine r"
    "regionEndLine r \<le> int (length lines)" "regionStartLine r \<le> regionEndLine r"
    and rtext: "regionText r = joinWith ''\<newline>'' ?slice"
    using assms(1) unfolding regionWellFormed_def by linarith+
  have len: "length ?slice = nat (regionEndLine r - (regionStartLine r - 1))"
    using b(1-3) by (rule jsSlice_range_length)
  have "0 < nat (regionEndLine r - (regionStartLine r - 1))"
    using b(4) by linarith
  then have ne: "?slice \<noteq> []"
    unfolding len[symmetric] by (rule length_greater_0_conv[THEN iffD1])
  have "\<forall>l \<in> set ?slice. CHR ''\<newline>'' \<notin> set l"
    using assms(2) jsSlice_subset[of lines] by blast
  with ne have sj: "splitLines (joinWith ''\<newline>'' ?slice) = ?slice"
    by (rule splitLines_joinWith)
  have "length (splitLines (regionText r)) = length ?slice"
    unfolding rtext sj ..
  then have "length (splitLines (regionText r)) = nat (regionEndLine r - (regionStartLine r - 1))"
    using len by (rule trans)
  then show ?thesis
    using b(4) by linarith
qed

lemma region_chunks:
  assumes "regionWellFormed lines r" and "\<forall>l \<in> set lines. CHR ''\<newline>'' \<notin> set l"
  shows "\<exists>new. regionsToChunks path maxTokens (r # rest) chunkIdx chunks =
                 regionsToChunks path maxTokens rest (chunkIdx + int (length new)) (chunks @ new) \<and>
     map chunkIndex new = map (\<lambda>i. chunkIdx + int i) [0..<length new] \<and>
     (\<forall>n. regionStartLine r \<le> n \<and> n \<le> regionEndLine r \<longrightarrow> lineCovered new n)"
proof (cases "estimateTokens (regionText r) \<le> maxTokens - headerOverhead")
  case True
  let ?text = "buildChunkContent path (regionText r) (regionStartLine r) (regionEndLine r)
                 (regionSymbolNames r)"
  let ?c = "\<lparr>chunkIndex = chunkIdx, chunkContent = ?text, chunkStartLine = regionStartLine r,
             chunkEndLine = regionEndLine r, containedSymbolNames = regionSymbolNames r,
             tokenCount = estimateTokens ?text\<rparr>"
  have "regionsToChunks path maxTokens (r # rest) chunkIdx chunks =
          regionsToChunks path maxTokens rest (chunkIdx + int (length [?c])) (chunks @ [?c])"
    using True by (simp add: Let_def)
  then show ?thesis
    by (intro exI[of _ "[?c]"]) (simp add: lineCovered_def)
next
  case False
  let ?ls = "splitLines (regionText r)"
  from splitRegion_loop_covers[of 0 ?ls r path maxTokens chunkIdx "[]"]
  obtain new where
    eq: "splitRegion r path maxTokens chunkIdx = new"
    and idx: "map chunkIndex new = map (\<lambda>i. chunkIdx + int i) [0..<length new]"
    and cov: "\<forall>n. regionStartLine r + int 0 \<le> n \<and> n < regionStartLine r + int (length ?ls)
                \<longrightarrow> lineCovered new n"
    unfolding splitRegion_def by auto
  have "regionsToChunks path maxTokens (r # rest) chunkIdx chunks =
          regionsToChunks path maxTokens rest (chunkIdx + int (length new)) (chunks @ new)"
    using False eq by (simp add: Let_def)
  moreover have "lineCovered new n" if "regionStartLine r \<le> n" "n \<le> regionEndLine r" for n
    using cov that region_lines[OF assms] by simp
  ultimately show ?thesis
    using idx by blast
qed

lemma regionsToChunks_covers:
  assumes "\<forall>r \<in> set regions. regionWellFormed lines r"
    and "\<forall>l \<in> set lines. CHR ''\<newline>'' \<notin> set l"
  shows "\<exists>new. regionsToChunks path maxTokens regions chunkIdx chunks = chunks @ new \<and>
     map chunkIndex new = map (\<lambda>i. chunkIdx + int i) [0..<length new] \<and>
     (\<forall>n. regionsCover regions n \<longrightarrow> lineCovered new n)"
  using assms(1)
proof (induction regions arbitrary: chunkIdx chunks)
  case Nil
  show ?case by (simp add: regionsCover_def)
next
  case (Cons r rest)
  have rwf: "regionWellFormed lines r" and restwf: "\<forall>r \<in> set rest. regionWellFormed lines r"
    using Cons.prems by simp_all
  from region_chunks[OF rwf assms(2), of path maxTokens rest chunkIdx chunks]
  obtain new1 where
    step: "regionsToChunks path maxTokens (r # rest) chunkIdx chunks =
             regionsToChunks path maxTokens rest (chunkIdx + int (length new1)) (chunks @ new1)"
    and idx1: "map chunkIndex new1 = map (\<lambda>i. chunkIdx + int i) [0..<length new1]"
    and cov1: "\<forall>n. regionStartLine r \<le> n \<and> n \<le> regionEndLine r \<longrightarrow> lineCovered new1 n"
    by blast
  from Cons.IH[OF restwf, of "chunkIdx + int (length new1)" "chunks @ new1"]
  obtain new2 where
    eq2: "regionsToChunks path maxTokens rest (chunkIdx + int (length new1)) (chunks @ new1)
            = (chunks @ new1) @ new2"
    and idx2: "map chunkIndex new2 =
                 map (\<lambda>i. chunkIdx + int (length new1) + int i) [0..<length new2]"
    and cov2: "\<forall>n. regionsCover rest n \<longrightarrow> lineCovered new2 n"
    by blast
  have "regionsToChunks path maxTokens (r # rest) chunkIdx chunks = chunks @ (new1 @ new2)"
    using step eq2 by simp
  moreover have "map chunkIndex (new1 @ new2) = map (\<lambda>i. chunkIdx + int i) [0..<length (new1 @ new2)]"
    using idx1 idx2 by (rule chunkIndex_append)
  moreover have "lineCovered (new1 @ new2) n" if "regionsCover (r # rest) n" for n
  proof -
    from that have "(regionStartLine r \<le> n \<and> n \<le> regionEndLine r) \<or> regionsCover rest n"
      by (simp add: regionsCover_def)
    then show ?thesis
      using cov1 cov2 by (auto simp: lineCovered_append)
  qed
  ultimately show ?case by blast
qed

subsection \<open>Chunk coverage\<close>

lemma chunkByLines_covers:
  "map chunkIndex (chunkByLines source path maxTokens) =
     map (\<lambda>i. 0 + int i) [0..<length (chunkByLines source path maxTokens)] \<and>
   (\<forall>n. 1 \<le> n \<and> n \<le> int (length (splitLines source)) \<longrightarrow>
      lineCovered (chunkByLines source path maxTokens) n)"
proof -
  let ?r = "\<lparr>regionStartLine = 1, regionEndLine = int (length (splitLines source)),
              regionText = source, regionSymbolNames = [], isSymbol = False\<rparr>"
  from splitRegion_loop_covers[of 0 "splitLines source" ?r path maxTokens 0 "[]"]
  obtain new where
    eq: "splitRegion_loop ?r path maxTokens (splitLines source) 0 0 [] = new"
    and idx: "map chunkIndex new = map (\<lambda>i. 0 + int i) [0..<length new]"
    and cov: "\<forall>n. regionStartLine ?r + int 0 \<le> n \<and>
                n < regionStartLine ?r + int (length (splitLines source)) \<longrightarrow> lineCovered new n"
    by auto
  have "chunkByLines source path maxTokens = new"
    unfolding chunkByLines_def
      chunkByLines_loop_as_region[where e = "int (length (splitLines source))" and t = source]
    by (rule eq)
  then show ?thesis
    using idx cov by simp
qed

lemma chunkFile_covers_indexed:
  assumes "\<forall>s \<in> set allSymbols. 1 \<le> symStartLine s \<and> symStartLine s \<le> symEndLine s \<and>
             symEndLine s \<le> int (length (splitLines source))"
  shows "map chunkIndex (chunkFile source path allSymbols maxTokens) =
           map (\<lambda>i. 0 + int i) [0..<length (chunkFile source path allSymbols maxTokens)] \<and>
         (\<forall>n. 1 \<le> n \<and> n \<le> int (length (splitLines source)) \<and>
              \<not> blankLine (splitLines source ! nat (n - 1)) \<longrightarrow>
            lineCovered (chunkFile source path allSymbols maxTokens) n)"
proof (cases "estimateTokens source \<le> maxTokens")
  case True
  then show ?thesis
    using splitLines_nonempty[of source]
    by (simp add: chunkFile_def Let_def lineCovered_def)
next
  case False
  let ?lines = "splitLines source"
  let ?N = "int (length ?lines)"
  let ?top = "sort_key symStartLine
                (filter (\<lambda>s. (parentName s = None \<or> parentName s = Some []) \<or> symKind s = KindClass)
                   allSymbols)"
  let ?built = "buildRegions ?lines allSymbols ?top 1 []"
  let ?c = "fst ?built"
  let ?builtRegions = "snd ?built"
  let ?trailingText = "joinWith ''\<newline>'' (jsSlice ?lines (?c - 1) None)"
  let ?trail = "\<lparr>regionStartLine = ?c, regionEndLine = ?N, regionText = ?trailingText,
                  regionSymbolNames = [], isSymbol = False\<rparr>"
  let ?hasTrail = "?c \<le> ?N \<and> length (jsTrim ?trailingText) > 0"
  let ?regions = "if ?hasTrail then ?builtRegions @ [?trail] else ?builtRegions"
  have nonl: "\<forall>l \<in> set ?lines. CHR ''\<newline>'' \<notin> set l"
    using splitLines_no_newline by blast
  have topwf: "\<forall>s \<in> set ?top. 1 \<le> symStartLine s \<and> symStartLine s \<le> symEndLine s \<and>
                 symEndLine s \<le> ?N"
    using assms by simp
  have one: "(1::int) \<le> 1" by simp
  have none: "\<forall>r \<in> set []. regionWellFormed ?lines r" by simp
  note inv = buildRegions_invariant[OF topwf one none, of allSymbols]
  have c1: "1 \<le> ?c"
    using inv by blast
  have wf0: "\<forall>r \<in> set ?builtRegions. regionWellFormed ?lines r"
    using inv by blast
  have cov0: "\<forall>n. 1 \<le> n \<and> n < ?c \<and> n \<le> ?N \<and> \<not> blankLine (?lines ! nat (n - 1)) \<longrightarrow>
                 regionsCover ?builtRegions n"
    using inv by blast
  have unf: "chunkFile source path allSymbols maxTokens =
      (if length ?regions = 0 then chunkByLines source path maxTokens
       else regionsToChunks path maxTokens ?regions 0 [])"
    using False splitLines_nonempty[of source]
    by (simp add: chunkFile_def Let_def case_prod_beta)
  have trailwf: "regionWellFormed ?lines ?trail" if "?c \<le> ?N"
    using that c1 jsSlice_to_end[of "?c - 1" ?lines]
    by (simp add: regionWellFormed_def)
  have wf: "\<forall>r \<in> set ?regions. regionWellFormed ?lines r"
    using wf0 trailwf by auto
  have cov: "regionsCover ?regions n"
    if n: "1 \<le> n" "n \<le> ?N" "\<not> blankLine (?lines ! nat (n - 1))" for n
  proof (cases "n < ?c")
    case True
    then have "regionsCover ?builtRegions n" using cov0 n by blast
    then show ?thesis by (simp add: regionsCover_append)
  next
    case after: False
    then have cN: "?c \<le> ?N" using n(2) by simp
    have "length (jsTrim (joinWith ''\<newline>'' (jsSlice ?lines (?c - 1) (Some ?N)))) > 0"
      using c1 cN after n by (intro nonblank_slice_text[where i = "n - 1"]) simp_all
    then have "length (jsTrim ?trailingText) > 0"
      using jsSlice_to_end[of "?c - 1" ?lines] c1 cN by simp
    then have has: "?hasTrail" using cN by simp
    have "regionsCover [?trail] n"
      using after n(2) by (simp add: regionsCover_def)
    then have "regionsCover (?builtRegions @ [?trail]) n"
      unfolding regionsCover_append by (rule disjI2)
    then show ?thesis
      unfolding if_P[OF has] .
  qed
  show ?thesis
  proof (cases "length ?regions = 0")
    case True
    have "chunkFile source path allSymbols maxTokens = chunkByLines source path maxTokens"
      unfolding unf if_P[OF True] ..
    then show ?thesis
      using chunkByLines_covers[of source path maxTokens] by simp
  next
    case nonempty: False
    have eq: "chunkFile source path allSymbols maxTokens =
                regionsToChunks path maxTokens ?regions 0 []"
      unfolding unf if_not_P[OF nonempty] ..
    from regionsToChunks_covers[OF wf nonl, of path maxTokens 0 "[]"]
    obtain new where
      "regionsToChunks path maxTokens ?regions 0 [] = [] @ new"
      "map chunkIndex new = map (\<lambda>i. 0 + int i) [0..<length new]"
      "\<forall>n. regionsCover ?regions n \<longrightarrow> lineCovered new n"
      by blast
    then show ?thesis
      unfolding eq using cov by simp
  qed
qed

text \<open>
  C2, as the code has it. For every source text, file path, symbol list whose line
  ranges lie within the source, and token budget, the chunk ranges of
  \<^const>\<open>chunkFile\<close> hold every line of the source that is not blank (that has a character
  which is not white space), and the values of \<open>chunkIndex\<close> are \<open>0, 1, 2, \<dots>\<close> in
  output order, so they increase strictly.
\<close>

theorem chunkFile_coverage:
  assumes "\<forall>s \<in> set allSymbols. 1 \<le> symStartLine s \<and> symStartLine s \<le> symEndLine s \<and>
             symEndLine s \<le> int (length (splitLines source))"
  shows "(\<forall>n. 1 \<le> n \<and> n \<le> int (length (splitLines source)) \<and>
              \<not> blankLine (splitLines source ! nat (n - 1)) \<longrightarrow>
            lineCovered (chunkFile source path allSymbols maxTokens) n) \<and>
         map chunkIndex (chunkFile source path allSymbols maxTokens) =
           map int [0..<length (chunkFile source path allSymbols maxTokens)] \<and>
         sorted_wrt (<) (map chunkIndex (chunkFile source path allSymbols maxTokens))"
proof -
  let ?cs = "chunkFile source path allSymbols maxTokens"
  from chunkFile_covers_indexed[OF assms, of path maxTokens]
  have idx: "map chunkIndex ?cs = map int [0..<length ?cs]"
    and cov: "\<forall>n. 1 \<le> n \<and> n \<le> int (length (splitLines source)) \<and>
                \<not> blankLine (splitLines source ! nat (n - 1)) \<longrightarrow> lineCovered ?cs n"
    by simp_all
  have "sorted_wrt (<) (map int [0..<length ?cs])"
    by (simp add: sorted_wrt_map)
  then show ?thesis
    using idx cov by simp
qed

text \<open>
  C2 as stated fails on a line that holds only white space. The source
  \<^const>\<open>indentedSource\<close> has two lines, the first a single space, the second covered by
  the function \<open>f\<close>; with the budget 1 the only chunk is the one of line 2, and line 1,
  which is not empty, lies in no chunk.
\<close>

theorem chunkFile_coverage_counterexample:
  "splitLines indentedSource = ['' '', ''abcdef''] \<and>
   symStartLine (functionAt ''f'' 2 2) = 2 \<and> symEndLine (functionAt ''f'' 2 2) = 2 \<and>
   chunkRanges (chunkFile indentedSource ''a.ts'' [functionAt ''f'' 2 2] 1) = [(2, 2)] \<and>
   \<not> lineCovered (chunkFile indentedSource ''a.ts'' [functionAt ''f'' 2 2] 1) 1"
  by code_simp

theorem chunkFile_coverage_witness:
  "list_all (\<lambda>s. 1 \<le> symStartLine s \<and> symStartLine s \<le> symEndLine s \<and>
                  symEndLine s \<le> int (length (splitLines threeLines))) [functionAt ''f'' 1 3] \<and>
   \<not> blankLine (splitLines threeLines ! nat (2 - 1)) \<and>
   lineCovered (chunkFile threeLines ''a.ts'' [functionAt ''f'' 1 3] 2) 2 \<and>
   sorted_wrt (<) (map chunkIndex (chunkFile threeLines ''a.ts'' [functionAt ''f'' 1 3] 2))"
proof -
  have lines: "splitLines threeLines = [''abc'', ''def'', ''ghi'']"
    by code_simp
  have wf: "\<forall>s \<in> set [functionAt ''f'' 1 3]. 1 \<le> symStartLine s \<and> symStartLine s \<le> symEndLine s \<and>
              symEndLine s \<le> int (length (splitLines threeLines))"
    unfolding lines by (simp add: functionAt_def)
  have nb: "\<not> blankLine (splitLines threeLines ! nat (2 - 1))"
    unfolding lines by code_simp
  note cover = chunkFile_coverage[OF wf, of "''a.ts''" 2]
  have inside: "(1::int) \<le> 2 \<and> 2 \<le> int (length (splitLines threeLines)) \<and>
                 \<not> blankLine (splitLines threeLines ! nat (2 - 1))"
    using nb unfolding lines by simp
  have c: "lineCovered (chunkFile threeLines ''a.ts'' [functionAt ''f'' 1 3] 2) 2"
    using cover[THEN conjunct1, rule_format, OF inside] .
  have s: "sorted_wrt (<) (map chunkIndex (chunkFile threeLines ''a.ts'' [functionAt ''f'' 1 3] 2))"
    using cover by (elim conjE)
  have w: "list_all (\<lambda>s. 1 \<le> symStartLine s \<and> symStartLine s \<le> symEndLine s \<and>
                  symEndLine s \<le> int (length (splitLines threeLines))) [functionAt ''f'' 1 3]"
    using wf unfolding list_all_iff .
  show ?thesis
    using w nb c s by (intro conjI)
qed

text \<open>
  C10. The token budget does not bound the chunks that \<^const>\<open>chunkFile\<close> emits: some
  input yields a chunk whose \<open>tokenCount\<close> exceeds \<open>maxTokens\<close>. Each way has its input
  here, and each line-splitting function is reached by the input given for it. The
  whole-file path compares the source alone with the budget (\<open>''abc''\<close> is 1 token, its
  chunk 9). The line slices fill the budget with text before the header is added: the
  trailing text and the symbol body of \<^const>\<open>threeLines\<close> go through
  \<^const>\<open>splitRegion\<close>, the source \<^const>\<open>blankLines\<close>, which leaves no region, goes
  through \<^const>\<open>chunkByLines\<close> (two lines are 2 tokens against a budget of 2, their
  chunk is 10 tokens, and 14 with the symbol name in the header). A line longer than
  the budget is kept whole, in \<^const>\<open>splitRegion\<close> for \<^const>\<open>longLine\<close> and in \<^const>\<open>chunkByLines\<close> for \<^const>\<open>blankLongLine\<close> (the first line is 4 tokens
  against a budget of 1, and it is the text of the first chunk).
\<close>

theorem chunkFile_exceeds_budget:
  "(\<exists>source path allSymbols maxTokens.
      list_ex (\<lambda>c. tokenCount c > maxTokens) (chunkFile source path allSymbols maxTokens)) \<and>
   estimateTokens ''abc'' = 1 \<and>
   map tokenCount (chunkFile ''abc'' ''a.ts'' [] 1) = [9] \<and>
   estimateTokens ''abc\<newline>def'' = 2 \<and>
   chunkFile threeLines ''a.ts'' [] 2
     = splitRegion \<lparr>regionStartLine = 1, regionEndLine = 3, regionText = threeLines,
                     regionSymbolNames = [], isSymbol = False\<rparr> ''a.ts'' 2 0 \<and>
   map tokenCount (chunkFile threeLines ''a.ts'' [] 2) = [10, 9] \<and>
   chunkFile threeLines ''a.ts'' [functionAt ''f'' 1 3] 2
     = splitRegion \<lparr>regionStartLine = 1, regionEndLine = 3, regionText = threeLines,
                     regionSymbolNames = [''f''], isSymbol = True\<rparr> ''a.ts'' 2 0 \<and>
   map tokenCount (chunkFile threeLines ''a.ts'' [functionAt ''f'' 1 3] 2) = [14, 13] \<and>
   estimateTokens (replicate 3 CHR '' '' @ ''\<newline>'' @ replicate 3 CHR '' '') = 2 \<and>
   chunkFile blankLines ''a.ts'' [] 2 = chunkByLines blankLines ''a.ts'' 2 \<and>
   map (\<lambda>c. (chunkStartLine c, chunkEndLine c, tokenCount c)) (chunkFile blankLines ''a.ts'' [] 2)
     = [(1, 2, 10), (3, 3, 9)] \<and>
   estimateTokens ''aaaaaaaaaaaa'' = 4 \<and>
   chunkFile longLine ''a.ts'' [] 1
     = splitRegion \<lparr>regionStartLine = 1, regionEndLine = 2, regionText = longLine,
                     regionSymbolNames = [], isSymbol = False\<rparr> ''a.ts'' 1 0 \<and>
   map (\<lambda>c. (chunkStartLine c, chunkEndLine c, chunkContent c)) (chunkFile longLine ''a.ts'' [] 1)
     = [(1, 1, ''// File: a.ts | Lines: 1-1\<newline>aaaaaaaaaaaa''),
        (2, 2, ''// File: a.ts | Lines: 2-2\<newline>b'')] \<and>
   estimateTokens (replicate 12 CHR '' '') = 4 \<and>
   chunkFile blankLongLine ''a.ts'' [] 1 = chunkByLines blankLongLine ''a.ts'' 1 \<and>
   map (\<lambda>c. (chunkStartLine c, chunkEndLine c, chunkContent c, tokenCount c))
       (chunkFile blankLongLine ''a.ts'' [] 1)
     = [(1, 1, ''// File: a.ts | Lines: 1-1\<newline>'' @ replicate 12 CHR '' '', 12),
        (2, 2, ''// File: a.ts | Lines: 2-2\<newline>'' @ replicate 1 CHR '' '', 8)]"
proof -
  have whole: "map tokenCount (chunkFile ''abc'' ''a.ts'' [] 1) = [9]"
    by code_simp
  then have "list_ex (\<lambda>c. tokenCount c > 1) (chunkFile ''abc'' ''a.ts'' [] 1)"
    by (cases "chunkFile ''abc'' ''a.ts'' [] 1") auto
  then have some: "\<exists>source path allSymbols maxTokens.
      list_ex (\<lambda>c. tokenCount c > maxTokens) (chunkFile source path allSymbols maxTokens)"
    by blast
  have t1: "estimateTokens ''abc'' = 1" by code_simp
  have t2: "estimateTokens ''abc\<newline>def'' = 2" by code_simp
  have trailingPath: "chunkFile threeLines ''a.ts'' [] 2
     = splitRegion \<lparr>regionStartLine = 1, regionEndLine = 3, regionText = threeLines,
                     regionSymbolNames = [], isSymbol = False\<rparr> ''a.ts'' 2 0"
    by code_simp
  have trailing: "map tokenCount (chunkFile threeLines ''a.ts'' [] 2) = [10, 9]"
    by code_simp
  have bodyPath: "chunkFile threeLines ''a.ts'' [functionAt ''f'' 1 3] 2
     = splitRegion \<lparr>regionStartLine = 1, regionEndLine = 3, regionText = threeLines,
                     regionSymbolNames = [''f''], isSymbol = True\<rparr> ''a.ts'' 2 0"
    by code_simp
  have body: "map tokenCount (chunkFile threeLines ''a.ts'' [functionAt ''f'' 1 3] 2) = [14, 13]"
    by code_simp
  have t3: "estimateTokens (replicate 3 CHR '' '' @ ''\<newline>'' @ replicate 3 CHR '' '') = 2"
    by code_simp
  have byLinesPath: "chunkFile blankLines ''a.ts'' [] 2 = chunkByLines blankLines ''a.ts'' 2"
    by code_simp
  have byLines: "map (\<lambda>c. (chunkStartLine c, chunkEndLine c, tokenCount c))
                   (chunkFile blankLines ''a.ts'' [] 2)
     = [(1, 2, 10), (3, 3, 9)]"
    by code_simp
  have t4: "estimateTokens ''aaaaaaaaaaaa'' = 4" by code_simp
  have longPath: "chunkFile longLine ''a.ts'' [] 1
     = splitRegion \<lparr>regionStartLine = 1, regionEndLine = 2, regionText = longLine,
                     regionSymbolNames = [], isSymbol = False\<rparr> ''a.ts'' 1 0"
    by code_simp
  have long: "map (\<lambda>c. (chunkStartLine c, chunkEndLine c, chunkContent c))
                (chunkFile longLine ''a.ts'' [] 1)
     = [(1, 1, ''// File: a.ts | Lines: 1-1\<newline>aaaaaaaaaaaa''),
        (2, 2, ''// File: a.ts | Lines: 2-2\<newline>b'')]"
    by code_simp
  have t5: "estimateTokens (replicate 12 CHR '' '') = 4" by code_simp
  have blankLongPath: "chunkFile blankLongLine ''a.ts'' [] 1 = chunkByLines blankLongLine ''a.ts'' 1"
    by code_simp
  have blankLong: "map (\<lambda>c. (chunkStartLine c, chunkEndLine c, chunkContent c, tokenCount c))
       (chunkFile blankLongLine ''a.ts'' [] 1)
     = [(1, 1, ''// File: a.ts | Lines: 1-1\<newline>'' @ replicate 12 CHR '' '', 12),
        (2, 2, ''// File: a.ts | Lines: 2-2\<newline>'' @ replicate 1 CHR '' '', 8)]"
    by code_simp
  show ?thesis
    using some t1 whole t2 trailingPath trailing bodyPath body t3 byLinesPath byLines
      t4 longPath long t5 blankLongPath blankLong
    by (intro conjI)
qed

end
